theory Spec2Isabelle
  imports Main "HOL-Library.Word"
begin

section \<open>Tunables\<close>

text \<open>The constants of the streaming core, as the source declares them.\<close>

definition CHUNK_SIZE :: int where
  "CHUNK_SIZE = 1024 * 1024"

definition CLIENT_POOL_SIZE :: nat where
  "CLIENT_POOL_SIZE = 3"

definition WORKERS_PER_CONN :: nat where
  "WORKERS_PER_CONN = 3"

definition PARALLEL_WORKERS :: nat where
  "PARALLEL_WORKERS = CLIENT_POOL_SIZE * WORKERS_PER_CONN"

definition SEEK_PREBUF_CHUNKS :: int where
  "SEEK_PREBUF_CHUNKS = 10"

definition LOOKAHEAD_CHUNKS :: int where
  "LOOKAHEAD_CHUNKS = 250"

definition CACHE_MAX_BYTES :: int where
  "CACHE_MAX_BYTES = 700 * 1024 * 1024"

definition MAX_CONSECUTIVE_FAILURES :: nat where
  "MAX_CONSECUTIVE_FAILURES = 5"

definition MAX_RETRIES :: nat where
  "MAX_RETRIES = 4"

section \<open>Buffers and insertion-ordered maps\<close>

text \<open>
  A \<open>Buffer\<close> is a list of bytes. A JavaScript \<open>Map\<close> iterates its keys in insertion
  order, and the cache relies on that order, so a \<open>Map\<close> is an association list with the
  oldest key first. \<open>Map.set\<close> on a present key keeps the key's position; on an absent
  key it appends.
\<close>

type_synonym buffer = "8 word list"

type_synonym 'v jsmap = "(string \<times> 'v) list"

definition Map_get :: "'v jsmap \<Rightarrow> string \<Rightarrow> 'v option" where
  "Map_get m k = map_of m k"

definition Map_has :: "'v jsmap \<Rightarrow> string \<Rightarrow> bool" where
  "Map_has m k = (k \<in> set (map fst m))"

definition Map_delete :: "string \<Rightarrow> 'v jsmap \<Rightarrow> 'v jsmap" where
  "Map_delete k m = filter (\<lambda>p. fst p \<noteq> k) m"

definition Map_set :: "string \<Rightarrow> 'v \<Rightarrow> 'v jsmap \<Rightarrow> 'v jsmap" where
  "Map_set k v m =
     (if Map_has m k then map (\<lambda>p. if fst p = k then (k, v) else p) m else m @ [(k, v)])"

definition Map_size :: "'v jsmap \<Rightarrow> nat" where
  "Map_size m = length m"

definition Map_keys :: "'v jsmap \<Rightarrow> string list" where
  "Map_keys m = map fst m"

definition startsWith :: "string \<Rightarrow> string \<Rightarrow> bool" where
  "startsWith s p = (take (length p) s = p)"

section \<open>The LRU chunk cache\<close>

record ChunkCache =
  maxBytes :: int
  usedBytes :: int
  map_kv :: "buffer jsmap"

definition ChunkCache_new :: "int \<Rightarrow> ChunkCache" where
  "ChunkCache_new mb = \<lparr> maxBytes = mb, usedBytes = 0, map_kv = [] \<rparr>"

text \<open>\<open>get\<close>: a hit deletes the key and sets it again, which moves it to the end.\<close>

definition ChunkCache_get :: "ChunkCache \<Rightarrow> string \<Rightarrow> buffer option \<times> ChunkCache" where
  "ChunkCache_get c key =
     (case Map_get (map_kv c) key of
        None \<Rightarrow> (None, c)
      | Some buf \<Rightarrow> (Some buf, c\<lparr> map_kv := Map_set key buf (Map_delete key (map_kv c)) \<rparr>))"

text \<open>
  The eviction loop of \<open>set\<close>: while the new buffer does not fit and the map is not
  empty, drop the first key of the map and give its length back.
\<close>

function evict :: "ChunkCache \<Rightarrow> int \<Rightarrow> ChunkCache" where
  "evict c n =
     (if usedBytes c + n > maxBytes c \<and> Map_size (map_kv c) > 0 then
        (case map_kv c of
           [] \<Rightarrow> c
         | (oldest, b) # rest \<Rightarrow>
             evict (c\<lparr> usedBytes := usedBytes c - int (length b),
                       map_kv := Map_delete oldest (map_kv c) \<rparr>) n)
      else c)"
  by pat_completeness auto
termination
proof (relation "measure (\<lambda>(c, n). length (map_kv c))")
  show "wf (measure (\<lambda>(c, n). length (map_kv c)))" by simp
next
  fix c :: ChunkCache and n :: int and x21 x22 oldest b
  assume "map_kv c = x21 # x22" and "(oldest, b) = x21"
  then have m: "map_kv c = (oldest, b) # x22" by simp
  have "length (filter (\<lambda>p. fst p \<noteq> oldest) x22) \<le> length x22"
    by (rule length_filter_le)
  then show "((c\<lparr> usedBytes := usedBytes c - int (length b),
                  map_kv := Map_delete oldest (map_kv c) \<rparr>, n), (c, n))
             \<in> measure (\<lambda>(c, n). length (map_kv c))"
    by (simp add: m Map_delete_def less_Suc_eq_le)
qed

declare evict.simps [simp del]

text \<open>The first step of \<open>set\<close>: a key already present gives its bytes back and is deleted.\<close>

definition reclaim :: "ChunkCache \<Rightarrow> string \<Rightarrow> ChunkCache" where
  "reclaim c key =
     (case Map_get (map_kv c) key of
        None \<Rightarrow> c
      | Some old \<Rightarrow> c\<lparr> usedBytes := usedBytes c - int (length old),
                        map_kv := Map_delete key (map_kv c) \<rparr>)"

definition ChunkCache_set :: "ChunkCache \<Rightarrow> string \<Rightarrow> buffer \<Rightarrow> ChunkCache" where
  "ChunkCache_set c key buf =
     (let c2 = evict (reclaim c key) (int (length buf))
      in c2\<lparr> map_kv := Map_set key buf (map_kv c2),
              usedBytes := usedBytes c2 + int (length buf) \<rparr>)"

definition ChunkCache_has :: "ChunkCache \<Rightarrow> string \<Rightarrow> bool" where
  "ChunkCache_has c key = Map_has (map_kv c) key"

definition ChunkCache_clear :: "ChunkCache \<Rightarrow> ChunkCache" where
  "ChunkCache_clear c = c\<lparr> map_kv := [], usedBytes := 0 \<rparr>"

text \<open>
  \<open>deletePrefix\<close> walks a snapshot of the keys; a key of the snapshot is still in the map
  when its turn comes, because keys are unique and only the key at hand is deleted.
\<close>

definition deletePrefix_step :: "string \<Rightarrow> ChunkCache \<Rightarrow> string \<Rightarrow> ChunkCache" where
  "deletePrefix_step pre c key =
     (if startsWith key pre then
        (case Map_get (map_kv c) key of
           None \<Rightarrow> c
         | Some b \<Rightarrow> c\<lparr> usedBytes := usedBytes c - int (length b),
                        map_kv := Map_delete key (map_kv c) \<rparr>)
      else c)"

definition ChunkCache_deletePrefix :: "ChunkCache \<Rightarrow> string \<Rightarrow> ChunkCache" where
  "ChunkCache_deletePrefix c pre = foldl (deletePrefix_step pre) c (Map_keys (map_kv c))"

definition chunkCache :: ChunkCache where
  "chunkCache = ChunkCache_new CACHE_MAX_BYTES"

text \<open>Sequences of cache operations, for statements about every sequence.\<close>

datatype cache_op =
    Insert string buffer
  | Get string
  | Has string
  | DeletePrefix string
  | Clear

fun apply_cache_op :: "ChunkCache \<Rightarrow> cache_op \<Rightarrow> ChunkCache" where
  "apply_cache_op c (Insert k b) = ChunkCache_set c k b"
| "apply_cache_op c (Get k) = snd (ChunkCache_get c k)"
| "apply_cache_op c (Has k) = c"
| "apply_cache_op c (DeletePrefix p) = ChunkCache_deletePrefix c p"
| "apply_cache_op c Clear = ChunkCache_clear c"

definition run_cache_ops :: "ChunkCache \<Rightarrow> cache_op list \<Rightarrow> ChunkCache" where
  "run_cache_ops c ops = foldl apply_cache_op c ops"

fun fits :: "int \<Rightarrow> cache_op \<Rightarrow> bool" where
  "fits mb (Insert k b) = (int (length b) \<le> mb)"
| "fits mb _ = True"

text \<open>
  The representation invariant of a cache: keys are unique and \<open>usedBytes\<close> is the sum of
  the lengths of the stored buffers.
\<close>

definition bytes_of :: "buffer jsmap \<Rightarrow> int" where
  "bytes_of m = (\<Sum>p\<leftarrow>m. int (length (snd p)))"

definition cache_inv :: "ChunkCache \<Rightarrow> bool" where
  "cache_inv c = (distinct (map fst (map_kv c)) \<and> usedBytes c = bytes_of (map_kv c))"

definition within_budget :: "ChunkCache \<Rightarrow> bool" where
  "within_budget c = (cache_inv c \<and> usedBytes c \<le> maxBytes c)"

definition inserts :: "(string \<times> buffer) list \<Rightarrow> cache_op list" where
  "inserts kbs = map (\<lambda>(k, b). Insert k b) kbs"

text \<open>A small cache for the examples: a budget of four bytes, buffers of two.\<close>

definition demo_inserts :: "(string \<times> buffer) list" where
  "demo_inserts = [(''a'', [1, 2]), (''b'', [3, 4]), (''c'', [5, 6])]"

definition demo_lru :: ChunkCache where
  "demo_lru = \<lparr> maxBytes = 4, usedBytes = 4, map_kv = [(''b'', [3, 4]), (''c'', [5, 6])] \<rparr>"

section \<open>Numbers and strings\<close>

text \<open>
  Sizes and byte positions are JavaScript numbers, that is, doubles. A stream's size and
  what is computed within it are integers far below \<open>2^53\<close>, where the arithmetic of
  doubles is that of the integers; they are modelled as \<open>int\<close>. \<open>Math.floor (a / b)\<close> for a
  positive \<open>b\<close> is \<open>a div b\<close>; \<open>Math.ceil (a / b)\<close> is \<open>ceil_div a b\<close>; \<open>a % b\<close> takes the
  sign of \<open>a\<close>.
\<close>

definition ceil_div :: "int \<Rightarrow> int \<Rightarrow> int" where
  "ceil_div a b = - ((- a) div b)"

definition js_rem :: "int \<Rightarrow> int \<Rightarrow> int" where
  "js_rem a b = (if a < 0 then - ((- a) mod \<bar>b\<bar>) else a mod \<bar>b\<bar>)"

text \<open>
  A number that comes from the request is not bounded by the stream: it is a double with
  an integral value, or an infinity.
\<close>

datatype number = Finite int | PosInfinity | NegInfinity

text \<open>
  The double nearest to a natural number: 53 binary digits are kept and the rest is
  rounded to nearest, ties to the even significand; from \<open>2^1024\<close> on the result is
  infinite (\<open>None\<close>).
\<close>

fun bit_length :: "nat \<Rightarrow> nat" where
  "bit_length n = (if n = 0 then 0 else Suc (bit_length (n div 2)))"

declare bit_length.simps [simp del]

definition round_to_double :: "nat \<Rightarrow> nat option" where
  "round_to_double n =
     (let e = bit_length n - 53;
          q = n div 2 ^ e;
          r = n mod 2 ^ e;
          q' = (if 2 * r > 2 ^ e \<or> (2 * r = 2 ^ e \<and> odd q) then q + 1 else q);
          v = q' * 2 ^ e
      in if v < 2 ^ 1024 then Some v else None)"

definition to_double :: "int \<Rightarrow> number" where
  "to_double i =
     (if i < 0 then
        (case round_to_double (nat (- i)) of None \<Rightarrow> NegInfinity | Some v \<Rightarrow> Finite (- int v))
      else
        (case round_to_double (nat i) of None \<Rightarrow> PosInfinity | Some v \<Rightarrow> Finite (int v)))"

definition isDigit :: "char \<Rightarrow> bool" where
  "isDigit c = (c \<in> set ''0123456789'')"

definition digit_val :: "char \<Rightarrow> int" where
  "digit_val c = int (of_char c) - 48"

text \<open>
  \<open>parseInt (s, 10)\<close> on a non-empty string of decimal digits, the only use in the source:
  the double nearest to the number the digits write.
\<close>

definition digits_value :: "string \<Rightarrow> int" where
  "digits_value s = foldl (\<lambda>a c. 10 * a + digit_val c) 0 s"

definition parseInt :: "string \<Rightarrow> number" where
  "parseInt s = to_double (digits_value s)"

text \<open>The decimal digits of a natural number.\<close>

definition digit_char :: "nat \<Rightarrow> char" where
  "digit_char n = ''0123456789'' ! n"

function show_nat :: "nat \<Rightarrow> string" where
  "show_nat n = (if n < 10 then [digit_char n] else show_nat (n div 10) @ [digit_char (n mod 10)])"
  by pat_completeness auto
termination
  by (relation "measure id") auto

declare show_nat.simps [simp del]

text \<open>
  The text of a number, as string concatenation and a header value produce it. For a
  double \<open>x\<close> with an integral value it is made of the least number \<open>k\<close> of digits such that
  some \<open>k\<close>-digit \<open>s\<close> times a power of ten is a number whose nearest double is \<open>x\<close>; of two
  such \<open>s\<close> the one nearer to \<open>x\<close> is taken, the even one when they are equally near. Up to
  21 digits the text is \<open>s\<close> followed by zeros, beyond that it is in exponent form.
  \<open>candidate x k\<close> is that number for \<open>k\<close> digits, when there is one: it is the multiple of
  the power of ten next below or next above \<open>x\<close>. Seventeen digits always suffice.
\<close>

definition candidate :: "nat \<Rightarrow> nat \<Rightarrow> nat option" where
  "candidate x k =
     (let p = 10 ^ (length (show_nat x) - k);
          lo = (x div p) * p;
          hi = lo + p;
          ok_lo = (round_to_double lo = Some x);
          ok_hi = (round_to_double hi = Some x)
      in if ok_lo \<and> ok_hi then
           Some (if x - lo < hi - x \<or> (x - lo = hi - x \<and> even (x div p)) then lo else hi)
         else if ok_lo then Some lo
         else if ok_hi then Some hi
         else None)"

definition shortest_value :: "nat \<Rightarrow> nat" where
  "shortest_value x = (case List.map_filter (candidate x) [1..<18] of v # vs \<Rightarrow> v | [] \<Rightarrow> x)"

definition exponent_form :: "string \<Rightarrow> string" where
  "exponent_form ds =
     (case rev (dropWhile (\<lambda>c. c = CHR ''0'') (rev ds)) of
        [] \<Rightarrow> ds
      | d # rest \<Rightarrow> (if rest = [] then [d] else d # CHR ''.'' # rest) @ ''e+'' @ show_nat (length ds - 1))"

definition double_text :: "nat \<Rightarrow> string" where
  "double_text x =
     (let ds = show_nat (shortest_value x)
      in if length ds \<le> 21 then ds else exponent_form ds)"

definition magnitude_text :: "nat \<Rightarrow> string" where
  "magnitude_text n =
     (case round_to_double n of None \<Rightarrow> ''Infinity'' | Some x \<Rightarrow> double_text x)"

definition show_int :: "int \<Rightarrow> string" where
  "show_int i = (if i < 0 then CHR ''-'' # magnitude_text (nat (- i)) else magnitude_text (nat i))"

definition Number_toString :: "number \<Rightarrow> string" where
  "Number_toString x =
     (case x of Finite i \<Rightarrow> show_int i | PosInfinity \<Rightarrow> ''Infinity'' | NegInfinity \<Rightarrow> ''-Infinity'')"

text \<open>
  \<open>Buffer.slice (a, b)\<close>: a negative index counts from the end, and both indices are
  clamped to the buffer.
\<close>

definition slice_index :: "buffer \<Rightarrow> int \<Rightarrow> nat" where
  "slice_index buf i =
     (if i < 0 then nat (max 0 (int (length buf) + i)) else min (nat i) (length buf))"

definition Buffer_slice :: "buffer \<Rightarrow> int \<Rightarrow> int \<Rightarrow> buffer" where
  "Buffer_slice buf a b = take (slice_index buf b - slice_index buf a) (drop (slice_index buf a) buf)"

section \<open>The range server\<close>

subsection \<open>Matching the request\<close>

text \<open>
  The URL pattern \<open>^\/stream\/([^/?]+)\<close>: the stream id is the longest run of characters
  other than \<open>/\<close> and \<open>?\<close> after the prefix, and must not be empty.
\<close>

definition match_url :: "string \<Rightarrow> string option" where
  "match_url u =
     (if take 8 u = ''/stream/'' then
        (let v = takeWhile (\<lambda>c. c \<noteq> CHR ''/'' \<and> c \<noteq> CHR ''?'') (drop 8 u)
         in if v = [] then None else Some v)
      else None)"

text \<open>
  The Range pattern \<open>bytes=(\d+)-(\d*)\<close> is not anchored: the first position where it
  matches wins. At one position, \<open>\d+\<close> takes the whole run of digits (a shorter run would
  be followed by a digit, not by \<open>-\<close>), and \<open>\d*\<close> takes the whole run after the dash.
\<close>

definition match_here :: "string \<Rightarrow> (string \<times> string) option" where
  "match_here s =
     (if take 6 s = ''bytes='' then
        (let r = drop 6 s; d1 = takeWhile isDigit r; r1 = dropWhile isDigit r
         in if d1 \<noteq> [] \<and> take 1 r1 = ''-'' then Some (d1, takeWhile isDigit (drop 1 r1))
            else None)
      else None)"

fun match_range :: "string \<Rightarrow> (string \<times> string) option" where
  "match_range [] = match_here []"
| "match_range (c # cs) =
     (case match_here (c # cs) of Some m \<Rightarrow> Some m | None \<Rightarrow> match_range cs)"

text \<open>
  A header value is \<open>None\<close> when the request has no Range header. An empty string is
  falsy and is treated like no header.
\<close>

definition truthy :: "string option \<Rightarrow> bool" where
  "truthy h = (case h of None \<Rightarrow> False | Some s \<Rightarrow> s \<noteq> [])"

text \<open>
  \<open>if (end >= fileSize) end = fileSize - 1\<close>. The end is then a position of the stream;
  \<open>parseInt\<close> of digits is never negative, so the last case is not met.
\<close>

definition clamp_end :: "number \<Rightarrow> int \<Rightarrow> int" where
  "clamp_end end0 fileSize =
     (case end0 of
        Finite e \<Rightarrow> (if e \<ge> fileSize then fileSize - 1 else e)
      | PosInfinity \<Rightarrow> fileSize - 1
      | NegInfinity \<Rightarrow> fileSize - 1)"

definition parseRange :: "string option \<Rightarrow> int \<Rightarrow> number \<times> int" where
  "parseRange rangeHeader fileSize =
     (let (start, end0) =
            (case rangeHeader of
               None \<Rightarrow> (Finite 0, Finite (fileSize - 1))
             | Some h \<Rightarrow>
                 (if h = [] then (Finite 0, Finite (fileSize - 1))
                  else (case match_range h of
                          None \<Rightarrow> (Finite 0, Finite (fileSize - 1))
                        | Some (m1, m2) \<Rightarrow>
                            (parseInt m1,
                             if m2 \<noteq> [] then parseInt m2 else Finite (fileSize - 1)))));
          end1 = clamp_end end0 fileSize
      in (start, end1))"

subsection \<open>Streams, requests, and what the handler does\<close>

text \<open>
  A registered stream. The document handle and the data centre id are passed through to
  the downloads and play no part in the handler's decisions; \<open>downloader\<close> is the
  reference to the stream's background downloader object, if there is one.
\<close>

record StreamInfo =
  fileSize :: int
  mimeType :: string
  downloader :: "nat option"

record request =
  req_url :: string
  req_method :: string
  req_range :: "string option"
  req_socket :: bool

text \<open>The handler's calls on the response, the downloader and the fetcher, in order.\<close>

datatype action =
    WriteHead nat "(string \<times> string) list"
  | End string
  | SetNoDelay
  | SeekTo number
  | DownloadChunksParallel "int list"
  | NotifyPlayback int
  | Write buffer
  | Sleep nat

text \<open>
  What an awaited promise gives: a value, or an exception. The value of a chunk promise is
  a buffer or \<open>null\<close>.
\<close>

datatype 'a outcome = Resolved 'a | Rejected

text \<open>
  The handler shares the cache and the in-flight registry with the background workers and
  with other requests, which run whenever it awaits. What it finds at its \<open>t\<close>-th look is
  therefore given from outside: the cache, the registry (each promise with what it will
  give), what an inline \<open>downloadChunk\<close> gives, and whether the response was destroyed.
  Look \<open>0\<close> is the arrival of the request; iteration \<open>t\<close> of the body loop is look \<open>t\<close>.
\<close>

record env =
  cache_at :: "nat \<Rightarrow> ChunkCache"
  inFlight_at :: "nat \<Rightarrow> (buffer option outcome) jsmap"
  download_at :: "nat \<Rightarrow> string \<Rightarrow> buffer option outcome"
  destroyed_at :: "nat \<Rightarrow> bool"

definition cacheKey_of :: "string \<Rightarrow> int \<Rightarrow> string" where
  "cacheKey_of videoId chunkIndex = videoId @ '':'' @ show_int chunkIndex"

text \<open>
  The three-step read of one loop iteration: the cache; on a miss the promise in the
  in-flight registry, when there is one; and when there is still nothing, an inline
  \<open>downloadChunk\<close>, whose exception is caught and logged. An exception of the awaited
  in-flight promise is not caught here.
\<close>

definition read_chunk :: "env \<Rightarrow> nat \<Rightarrow> string \<Rightarrow> buffer option outcome" where
  "read_chunk e t key =
     (let chunkBuf = fst (ChunkCache_get (cache_at e t) key);
          awaited =
            (if chunkBuf = None \<and> Map_has (inFlight_at e t) key then
               (case Map_get (inFlight_at e t) key of
                  Some r \<Rightarrow> r
                | None \<Rightarrow> Resolved None)
             else Resolved chunkBuf)
      in case awaited of
           Rejected \<Rightarrow> Rejected
         | Resolved (Some buf) \<Rightarrow> Resolved (Some buf)
         | Resolved None \<Rightarrow>
             (case download_at e t key of
                Rejected \<Rightarrow> Resolved None
              | Resolved r \<Rightarrow> Resolved r))"

text \<open>
  One iteration of the body loop. It ends the loop (\<open>break\<close>, followed by the final
  \<open>res.end()\<close>), or goes on with a new position and failure count. When the awaited
  in-flight promise throws, the exception leaves the loop; the headers are sent by then,
  so the outer handler does nothing more and the response is not ended.
\<close>

datatype iteration = Stop "action list" | Continue "action list" int nat

definition serve_step :: "env \<Rightarrow> string \<Rightarrow> bool \<Rightarrow> int \<Rightarrow> nat \<Rightarrow> int \<Rightarrow> nat \<Rightarrow> iteration" where
  "serve_step e videoId dl targetEnd t bytePos consecutiveFailures =
     (let chunkIndex = bytePos div CHUNK_SIZE;
          offsetInChunk = js_rem bytePos CHUNK_SIZE;
          note = (if dl then [NotifyPlayback chunkIndex] else [])
      in case read_chunk e t (cacheKey_of videoId chunkIndex) of
           Rejected \<Rightarrow> Stop note
         | Resolved chunkBuf \<Rightarrow>
             (let buf = (case chunkBuf of None \<Rightarrow> [] | Some b \<Rightarrow> b)
              in if chunkBuf = None \<or> length buf = 0 then
                   (if consecutiveFailures + 1 \<ge> MAX_CONSECUTIVE_FAILURES then Stop (note @ [End []])
                    else Continue (note @ [Sleep 500]) bytePos (consecutiveFailures + 1))
                 else
                   (let remaining = targetEnd - bytePos;
                        available = int (length buf) - offsetInChunk;
                        toWrite = min available remaining
                    in if toWrite \<le> 0 then Stop (note @ [End []])
                       else Continue
                              (note @ [Write (Buffer_slice buf offsetInChunk (offsetInChunk + toWrite))])
                              (bytePos + toWrite) 0)))"

text \<open>The body loop, from \<open>bytePos\<close> to \<open>targetEnd\<close>, with the final \<open>res.end()\<close>.\<close>

function serve :: "env \<Rightarrow> string \<Rightarrow> bool \<Rightarrow> int \<Rightarrow> nat \<Rightarrow> int \<Rightarrow> nat \<Rightarrow> action list" where
  "serve e videoId dl targetEnd t bytePos consecutiveFailures =
     (if bytePos < targetEnd \<and> \<not> destroyed_at e t then
        (case serve_step e videoId dl targetEnd t bytePos consecutiveFailures of
           Stop acts \<Rightarrow> acts
         | Continue acts bytePos' failures' \<Rightarrow>
             acts @ serve e videoId dl targetEnd (t + 1) bytePos' failures')
      else [End []])"
  by pat_completeness auto
termination
proof (relation "measures [\<lambda>(e, v, dl, targetEnd, t, bytePos, f). nat (targetEnd - bytePos),
                          \<lambda>(e, v, dl, targetEnd, t, bytePos, f). MAX_CONSECUTIVE_FAILURES - f]")
  show "wf (measures [\<lambda>(e, v, dl, targetEnd, t, bytePos, f). nat (targetEnd - bytePos),
                      \<lambda>(e, v, dl, targetEnd, t, bytePos, f). MAX_CONSECUTIVE_FAILURES - f])"
    by simp
next
  fix e :: env and videoId dl targetEnd t bytePos and consecutiveFailures :: nat
    and acts bytePos' failures'
  assume c: "bytePos < targetEnd \<and> \<not> destroyed_at e t"
    and s: "serve_step e videoId dl targetEnd t bytePos consecutiveFailures
             = Continue acts bytePos' failures'"
  have "bytePos < bytePos' \<or>
        (bytePos' = bytePos \<and> failures' = consecutiveFailures + 1 \<and>
         failures' < MAX_CONSECUTIVE_FAILURES)"
    using s by (auto simp: serve_step_def Let_def split: outcome.splits if_splits)
  then show "((e, videoId, dl, targetEnd, t + 1, bytePos', failures'),
              (e, videoId, dl, targetEnd, t, bytePos, consecutiveFailures))
             \<in> measures [\<lambda>(e, v, dl, targetEnd, t, bytePos, f). nat (targetEnd - bytePos),
                          \<lambda>(e, v, dl, targetEnd, t, bytePos, f). MAX_CONSECUTIVE_FAILURES - f]"
    using c by auto
qed

declare serve.simps [simp del]

text \<open>The indices of the seek burst: the uncached ones from the first chunk on.\<close>

definition burstIndices :: "ChunkCache \<Rightarrow> string \<Rightarrow> int \<Rightarrow> int \<Rightarrow> int list" where
  "burstIndices c videoId firstChunk totalChunks =
     (let burstEnd = min (firstChunk + SEEK_PREBUF_CHUNKS) totalChunks
      in filter (\<lambda>bi. \<not> ChunkCache_has c (cacheKey_of videoId bi)) [firstChunk..burstEnd - 1])"

definition seekBurst :: "ChunkCache \<Rightarrow> string \<Rightarrow> bool \<Rightarrow> int \<Rightarrow> int \<Rightarrow> action list" where
  "seekBurst c videoId dl firstChunk totalChunks =
     (if \<not> ChunkCache_has c (cacheKey_of videoId firstChunk) then
        (if dl then [SeekTo (Finite firstChunk)] else []) @
        (let idxs = burstIndices c videoId firstChunk totalChunks
         in if length idxs > 0 then [DownloadChunksParallel idxs] else [])
      else [])"

text \<open>
  \<open>end - start + 1\<close>. When the start is not beyond the end, both lie within the stream
  and the arithmetic is that of the integers. Otherwise the start is whatever the request
  gave, and each of the two operations gives the double nearest to its exact result.
\<close>

definition contentLength_of :: "int \<Rightarrow> number \<Rightarrow> number" where
  "contentLength_of end1 start =
     (case start of
        Finite s \<Rightarrow>
          (if s \<le> end1 then Finite (end1 - s + 1)
           else (case to_double (end1 - s) of
                   Finite d \<Rightarrow> to_double (d + 1)
                 | PosInfinity \<Rightarrow> PosInfinity
                 | NegInfinity \<Rightarrow> NegInfinity))
      | PosInfinity \<Rightarrow> NegInfinity
      | NegInfinity \<Rightarrow> PosInfinity)"

text \<open>
  After the head: the seek burst and the body loop. With an infinite start the first
  chunk is infinite too: its cache key ends in \<open>Infinity\<close>, the loop that collects the
  burst indices and the body loop do not run (no comparison \<open>Infinity < x\<close> holds), and the
  response is ended. \<open>parseInt\<close> of digits is never negative, so the last case is not met.
\<close>

definition after_head ::
  "env \<Rightarrow> string \<Rightarrow> StreamInfo \<Rightarrow> number \<Rightarrow> int \<Rightarrow> action list" where
  "after_head e videoId streamInfo start end1 =
     (case start of
        Finite s \<Rightarrow>
          (let firstChunk = s div CHUNK_SIZE;
               totalChunks = ceil_div (fileSize streamInfo) CHUNK_SIZE
           in seekBurst (cache_at e 0) videoId (downloader streamInfo \<noteq> None) firstChunk totalChunks @
              serve e videoId (downloader streamInfo \<noteq> None) (end1 + 1) 1 s 0)
      | PosInfinity \<Rightarrow>
          (if \<not> ChunkCache_has (cache_at e 0) (videoId @ '':'' @ Number_toString PosInfinity) then
             (if downloader streamInfo \<noteq> None then [SeekTo PosInfinity] else [])
           else []) @
          [End []]
      | NegInfinity \<Rightarrow> [])"

definition handler :: "(string \<rightharpoonup> StreamInfo) \<Rightarrow> env \<Rightarrow> request \<Rightarrow> action list" where
  "handler activeStreams e req =
     (case match_url (req_url req) of
        None \<Rightarrow> [WriteHead 404 [], End ''Not found'']
      | Some videoId \<Rightarrow>
          (case activeStreams videoId of
             None \<Rightarrow> [WriteHead 404 [], End ''Stream not registered'']
           | Some streamInfo \<Rightarrow>
               (if req_method req = ''HEAD'' then
                  [WriteHead 200
                     [(''Content-Type'', mimeType streamInfo),
                      (''Content-Length'', show_int (fileSize streamInfo)),
                      (''Accept-Ranges'', ''bytes''),
                      (''Access-Control-Allow-Origin'', ''*'')],
                   End []]
                else
                  (let (start, end1) = parseRange (req_range req) (fileSize streamInfo);
                       contentLength = contentLength_of end1 start;
                       head =
                         (if truthy (req_range req) then
                            WriteHead 206
                              [(''Content-Type'', mimeType streamInfo),
                               (''Content-Length'', Number_toString contentLength),
                               (''Content-Range'',
                                  ''bytes '' @ Number_toString start @ ''-'' @ show_int end1 @ ''/'' @
                                  show_int (fileSize streamInfo)),
                               (''Accept-Ranges'', ''bytes''),
                               (''Access-Control-Allow-Origin'', ''*''),
                               (''Cache-Control'', ''no-cache'')]
                          else
                            WriteHead 200
                              [(''Content-Type'', mimeType streamInfo),
                               (''Content-Length'', show_int (fileSize streamInfo)),
                               (''Accept-Ranges'', ''bytes''),
                               (''Access-Control-Allow-Origin'', ''*''),
                               (''Cache-Control'', ''no-cache'')])
                   in head #
                      (if req_socket req then [SetNoDelay] else []) @
                      after_head e videoId streamInfo start end1))))"

text \<open>Reading a trace: the status line, a header, the body bytes written.\<close>

fun body_of :: "action list \<Rightarrow> buffer" where
  "body_of [] = []"
| "body_of (Write b # as) = b @ body_of as"
| "body_of (a # as) = body_of as"

fun heads_of :: "action list \<Rightarrow> (nat \<times> (string \<times> string) list) list" where
  "heads_of [] = []"
| "heads_of (WriteHead s hs # as) = (s, hs) # heads_of as"
| "heads_of (a # as) = heads_of as"




definition all_digits :: "string \<Rightarrow> bool" where
  "all_digits s = list_all isDigit s"

subsection \<open>A small stream for concrete runs\<close>

text \<open>
  A five-byte stream \<open>v\<close>, a request for it, and two surroundings: one in which the cache
  holds the only chunk at every look, and one in which the cache is empty when the request
  arrives and holds the chunk afterwards (as after a seek burst).
\<close>

definition demo_file :: buffer where
  "demo_file = [10, 11, 12, 13, 14]"

definition demo_info :: StreamInfo where
  "demo_info = \<lparr> fileSize = 5, mimeType = ''video/mp4'', downloader = Some 0 \<rparr>"

definition demo_streams :: "string \<rightharpoonup> StreamInfo" where
  "demo_streams = [''v'' \<mapsto> demo_info]"

definition demo_cache :: ChunkCache where
  "demo_cache = \<lparr> maxBytes = CACHE_MAX_BYTES, usedBytes = 5, map_kv = [(''v:0'', demo_file)] \<rparr>"

definition demo_env_warm :: env where
  "demo_env_warm =
     \<lparr> cache_at = (\<lambda>t. demo_cache), inFlight_at = (\<lambda>t. []),
       download_at = (\<lambda>t k. Resolved None), destroyed_at = (\<lambda>t. False) \<rparr>"

definition demo_env_cold :: env where
  "demo_env_cold =
     \<lparr> cache_at = (\<lambda>t. if t = 0 then chunkCache else demo_cache), inFlight_at = (\<lambda>t. []),
       download_at = (\<lambda>t k. Resolved None), destroyed_at = (\<lambda>t. False) \<rparr>"

definition demo_request :: "string option \<Rightarrow> request" where
  "demo_request r =
     \<lparr> req_url = ''/stream/v'', req_method = ''GET'', req_range = r, req_socket = True \<rparr>"

section \<open>The chunk fetcher\<close>

text \<open>
  A pool client, as far as the fetcher looks at it: its session string and whether it is
  connected.
\<close>

record client =
  session :: string
  connected :: bool

text \<open>
  \<open>getClient\<close> indexes the pool with \<open>chunkIndex % clientPool.length\<close>. On an empty pool
  the index is \<open>NaN\<close>, and a negative index names no element either: the result is
  \<open>undefined\<close>, here \<open>None\<close>. Otherwise it is the position of the client.
\<close>

definition getClient :: "client list \<Rightarrow> int \<Rightarrow> nat option" where
  "getClient clientPool chunkIndex =
     (if clientPool = [] \<or> js_rem chunkIndex (int (length clientPool)) < 0 then None
      else Some (nat (js_rem chunkIndex (int (length clientPool)))))"

text \<open>
  What the remote side does on attempt \<open>t\<close> of one fetch: whether a reconnect succeeds,
  and what \<open>iterDownload\<close> gives: a first piece, nothing at all, or an exception.
\<close>

datatype dl_result = Yields buffer | YieldsNothing | Throws

record remote =
  connect_at :: "nat \<Rightarrow> bool"
  iterDownload_at :: "nat \<Rightarrow> dl_result"

text \<open>
  The record of one attempt: the client taken, how the attempt ended, and the sleep after
  it, if any. \<open>NoClient\<close> is the \<open>TypeError\<close> of calling \<open>iterDownload\<close> on \<open>undefined\<close>.
\<close>

datatype attempt_outcome = NoClient | ReconnectFailed | DownloadThrew | Empty | Got buffer

record attempt_log =
  att_client :: "nat option"
  att_outcome :: attempt_outcome
  att_delay :: "nat option"

definition backoff :: "nat \<Rightarrow> nat" where
  "backoff attempt = 200 * 2 ^ (attempt - 1)"

text \<open>
  One pass through the body of the retry loop. A failed reconnect before the last attempt
  sleeps and goes to the next attempt; on the last attempt the download is tried all the
  same. An exception of the download sleeps unless the attempt is the last. A download
  that gives nothing, or an empty buffer, falls out of the \<open>try\<close> with no sleep.
\<close>

definition attempt_once :: "remote \<Rightarrow> client list \<Rightarrow> int \<Rightarrow> nat \<Rightarrow> client list \<times> attempt_log" where
  "attempt_once r clientPool chunkIndex attempt =
     (let caught = (if attempt = MAX_RETRIES then None else Some (backoff attempt))
      in case getClient clientPool (chunkIndex + int attempt - 1) of
           None \<Rightarrow>
             (clientPool, \<lparr> att_client = None, att_outcome = NoClient, att_delay = caught \<rparr>)
         | Some i \<Rightarrow>
             (let c = clientPool ! i;
                  reconnect = \<not> connected c;
                  ok = connect_at r attempt;
                  pool1 = (if reconnect \<and> ok then clientPool[i := c\<lparr> connected := True \<rparr>]
                           else clientPool)
              in if reconnect \<and> \<not> ok \<and> attempt < MAX_RETRIES then
                   (clientPool,
                    \<lparr> att_client = Some i, att_outcome = ReconnectFailed,
                      att_delay = Some (backoff attempt) \<rparr>)
                 else
                   (case iterDownload_at r attempt of
                      Throws \<Rightarrow>
                        (pool1, \<lparr> att_client = Some i, att_outcome = DownloadThrew,
                                  att_delay = caught \<rparr>)
                    | YieldsNothing \<Rightarrow>
                        (pool1, \<lparr> att_client = Some i, att_outcome = Empty, att_delay = None \<rparr>)
                    | Yields buf \<Rightarrow>
                        (if length buf > 0 then
                           (pool1, \<lparr> att_client = Some i, att_outcome = Got buf,
                                     att_delay = None \<rparr>)
                         else
                           (pool1, \<lparr> att_client = Some i, att_outcome = Empty,
                                     att_delay = None \<rparr>)))))"

text \<open>
  The retry loop \<open>for (attempt = 1; attempt <= MAX_RETRIES; attempt++)\<close> from a given
  attempt on: the result (\<open>None\<close> is \<open>null\<close>), the pool, the cache, and the attempts made.
\<close>

function impl_loop ::
  "remote \<Rightarrow> string \<Rightarrow> int \<Rightarrow> nat \<Rightarrow> client list \<Rightarrow> ChunkCache \<Rightarrow>
   buffer option \<times> client list \<times> ChunkCache \<times> attempt_log list" where
  "impl_loop r cacheKey chunkIndex attempt clientPool cache =
     (if attempt \<le> MAX_RETRIES then
        (case attempt_once r clientPool chunkIndex attempt of
           (pool1, entry) \<Rightarrow>
             (case att_outcome entry of
                Got buf \<Rightarrow> (Some buf, pool1, ChunkCache_set cache cacheKey buf, [entry])
              | _ \<Rightarrow>
                  (case impl_loop r cacheKey chunkIndex (attempt + 1) pool1 cache of
                     (res, pool2, cache2, rest) \<Rightarrow> (res, pool2, cache2, entry # rest))))
      else (None, clientPool, cache, []))"
  by pat_completeness auto
termination
  by (relation "measure (\<lambda>(r, k, ci, attempt, p, c). MAX_RETRIES + 1 - attempt)") auto

declare impl_loop.simps [simp del]

definition downloadChunkImpl ::
  "remote \<Rightarrow> string \<Rightarrow> int \<Rightarrow> int \<Rightarrow> client list \<Rightarrow> ChunkCache \<Rightarrow>
   buffer option \<times> client list \<times> ChunkCache \<times> attempt_log list" where
  "downloadChunkImpl r cacheKey chunkIndex fileSize' clientPool cache =
     (let offset = chunkIndex * CHUNK_SIZE
      in if offset \<ge> fileSize' then (Some [], clientPool, cache, [])
         else impl_loop r cacheKey chunkIndex 1 clientPool cache)"

text \<open>
  \<open>downloadChunk\<close>, run from call to return with nothing in between. The registry maps a
  key to a promise, written as what the promise gives. The \<open>finally\<close> block deletes the
  key whether the awaited promise gives a value or throws.
\<close>

record world =
  w_cache :: ChunkCache
  w_inFlight :: "(buffer option outcome) jsmap"
  w_pool :: "client list"

definition downloadChunk ::
  "remote \<Rightarrow> world \<Rightarrow> string \<Rightarrow> int \<Rightarrow> int \<Rightarrow> buffer option outcome \<times> world \<times> attempt_log list" where
  "downloadChunk r w videoId chunkIndex fileSize' =
     (let cacheKey = cacheKey_of videoId chunkIndex;
          (cached, c1) = ChunkCache_get (w_cache w) cacheKey;
          w1 = w\<lparr> w_cache := c1 \<rparr>
      in if (case cached of None \<Rightarrow> False | Some b \<Rightarrow> length b > 0) then (Resolved cached, w1, [])
         else if Map_has (w_inFlight w1) cacheKey then
           ((case Map_get (w_inFlight w1) cacheKey of None \<Rightarrow> Resolved None | Some p \<Rightarrow> p), w1, [])
         else
           (case downloadChunkImpl r cacheKey chunkIndex fileSize' (w_pool w1) (w_cache w1) of
              (res, pool', cache', attempts) \<Rightarrow>
                (let promise = Resolved res;
                     w2 = w1\<lparr> w_cache := cache', w_pool := pool',
                              w_inFlight := Map_set cacheKey promise (w_inFlight w1) \<rparr>;
                     w3 = w2\<lparr> w_inFlight := Map_delete cacheKey (w_inFlight w2) \<rparr>
                 in (case promise of
                       Resolved v \<Rightarrow> (Resolved v, w3, attempts)
                     | Rejected \<Rightarrow> (Rejected, w3, attempts)))))"

text \<open>An attempt that ended in an exception, caught by the loop.\<close>

definition threw :: "attempt_log \<Rightarrow> bool" where
  "threw a = (att_outcome a = NoClient \<or> att_outcome a = ReconnectFailed \<or>
              att_outcome a = DownloadThrew)"

definition got_bytes :: "attempt_log \<Rightarrow> bool" where
  "got_bytes a = (case att_outcome a of Got buf \<Rightarrow> True | _ \<Rightarrow> False)"

text \<open>A call that finds the key neither usable in the cache nor in the registry.\<close>

definition misses :: "world \<Rightarrow> string \<Rightarrow> bool" where
  "misses w cacheKey =
     ((case Map_get (map_kv (w_cache w)) cacheKey of None \<Rightarrow> True | Some b \<Rightarrow> length b = 0)
      \<and> \<not> Map_has (w_inFlight w) cacheKey)"

text \<open>
  What the retry loop does from attempt \<open>a\<close> on, for a pool of \<open>n\<close> clients: the
  statement proved of \<open>impl_loop\<close> by induction.
\<close>

definition loop_spec ::
  "nat \<Rightarrow> int \<Rightarrow> nat \<Rightarrow> string \<Rightarrow> ChunkCache \<Rightarrow> buffer option \<Rightarrow> ChunkCache \<Rightarrow> attempt_log list \<Rightarrow> bool" where
  "loop_spec n ci a key cache res cache2 lg =
     (length lg \<le> MAX_RETRIES + 1 - a
      \<and> (\<forall>t < length lg. att_client (lg ! t) = Some ((nat ci + (a - 1) + t) mod n))
      \<and> (\<forall>t < length lg. att_delay (lg ! t) =
            (if threw (lg ! t) \<and> a + t < 4 then Some (200 * 2 ^ (a - 1 + t)) else None))
      \<and> (\<forall>t < length lg. got_bytes (lg ! t) \<longleftrightarrow> (t + 1 = length lg \<and> res \<noteq> None))
      \<and> (case res of
            Some buf \<Rightarrow> buf \<noteq> [] \<and> lg \<noteq> [] \<and> att_outcome (last lg) = Got buf
                        \<and> cache2 = ChunkCache_set cache key buf
          | None \<Rightarrow> length lg = MAX_RETRIES + 1 - a \<and> cache2 = cache))"

definition demo_pool :: "client list" where
  "demo_pool = [\<lparr> session = ''s'', connected = True \<rparr>, \<lparr> session = ''s'', connected = True \<rparr>,
                \<lparr> session = ''s'', connected = True \<rparr>]"

definition demo_world :: world where
  "demo_world = \<lparr> w_cache = chunkCache, w_inFlight = [], w_pool = demo_pool \<rparr>"

definition demo_remote_empty_then_ok :: remote where
  "demo_remote_empty_then_ok =
     \<lparr> connect_at = (\<lambda>t. True),
       iterDownload_at = (\<lambda>t. if t = 1 then YieldsNothing else Yields [1, 2, 3]) \<rparr>"

definition demo_remote_throw_then_ok :: remote where
  "demo_remote_throw_then_ok =
     \<lparr> connect_at = (\<lambda>t. True),
       iterDownload_at = (\<lambda>t. if t = 1 then Throws else Yields [1, 2, 3]) \<rparr>"

section \<open>The background downloader\<close>

definition PREFETCH_CHUNKS :: int where
  "PREFETCH_CHUNKS = 50"

record StreamDownloader =
  sd_videoId :: string
  sd_fileSize :: int
  sd_totalChunks :: int
  playbackChunk :: int
  cursor :: int
  seekGeneration :: nat
  running :: bool
  workerPromises :: "nat list"

definition StreamDownloader_new :: "string \<Rightarrow> int \<Rightarrow> StreamDownloader" where
  "StreamDownloader_new videoId totalSize =
     \<lparr> sd_videoId = videoId, sd_fileSize = totalSize,
       sd_totalChunks = ceil_div totalSize CHUNK_SIZE,
       playbackChunk = 0, cursor = 0, seekGeneration = 0, running = False, workerPromises = [] \<rparr>"

text \<open>\<open>stop\<close> clears the flag and forgets the worker promises; it awaits nothing.\<close>

definition StreamDownloader_stop :: "StreamDownloader \<Rightarrow> StreamDownloader" where
  "StreamDownloader_stop d = d\<lparr> running := False, workerPromises := [] \<rparr>"

definition StreamDownloader_seekTo :: "StreamDownloader \<Rightarrow> int \<Rightarrow> StreamDownloader" where
  "StreamDownloader_seekTo d chunkIndex =
     d\<lparr> seekGeneration := seekGeneration d + 1, cursor := chunkIndex, playbackChunk := chunkIndex \<rparr>"

definition StreamDownloader_notifyPlayback :: "StreamDownloader \<Rightarrow> int \<Rightarrow> StreamDownloader" where
  "StreamDownloader_notifyPlayback d chunkIndex =
     (let d1 = d\<lparr> playbackChunk := chunkIndex \<rparr>
      in if cursor d1 \<ge> sd_totalChunks d1 \<or> cursor d1 > chunkIndex + LOOKAHEAD_CHUNKS then
           d1\<lparr> seekGeneration := seekGeneration d1 + 1, cursor := chunkIndex \<rparr>
         else d1)"

text \<open>
  \<open>_getNextChunk\<close>: the scan for the next index that is neither cached nor in flight.
  Every index looked at is passed over for good (\<open>_cursor++\<close>).
\<close>

function getNextChunk_loop ::
  "ChunkCache \<Rightarrow> nat jsmap \<Rightarrow> StreamDownloader \<Rightarrow> int \<Rightarrow> nat \<Rightarrow> int option \<times> StreamDownloader" where
  "getNextChunk_loop c inFlight d limit scanned =
     (if cursor d < sd_totalChunks d \<and> cursor d \<le> limit \<and> int scanned < LOOKAHEAD_CHUNKS then
        (let idx = cursor d;
             d1 = d\<lparr> cursor := cursor d + 1 \<rparr>;
             key = cacheKey_of (sd_videoId d) idx
         in if \<not> ChunkCache_has c key \<and> \<not> Map_has inFlight key then (Some idx, d1)
            else getNextChunk_loop c inFlight d1 limit (scanned + 1))
      else (None, d))"
  by pat_completeness auto
termination
  by (relation "measure (\<lambda>(c, f, d, limit, scanned). nat LOOKAHEAD_CHUNKS - scanned)")
     (auto simp: LOOKAHEAD_CHUNKS_def)

declare getNextChunk_loop.simps [simp del]

definition getNextChunk ::
  "ChunkCache \<Rightarrow> nat jsmap \<Rightarrow> StreamDownloader \<Rightarrow> int option \<times> StreamDownloader" where
  "getNextChunk c inFlight d = getNextChunk_loop c inFlight d (playbackChunk d + LOOKAHEAD_CHUNKS) 0"

section \<open>The fetcher and the workers as interleaved tasks\<close>

text \<open>
  JavaScript runs one task at a time and switches only at an \<open>await\<close>. The shared state is
  the cache, the in-flight registry, the launched \<open>_downloadChunkImpl\<close> runs, the registered
  streams, the downloader objects, and the worker tasks. An event is one stretch of code
  between two awaits.

  A launched \<open>_downloadChunkImpl\<close> is pending until it returns; it is settled from then
  until the call that launched it has run its \<open>finally\<close> block, and finalized after. The
  registry maps a key to the number of the launch whose promise it holds.
\<close>

datatype pstate = Pending | Settled "buffer option" | Finalized "buffer option"

datatype call_outcome = Hit buffer | Joined nat | Started nat

datatype worker_state = Sleeping | Downloading nat call_outcome | Exited

record worker =
  wk_downloader :: nat
  wk_state :: worker_state

record sys =
  sys_cache :: ChunkCache
  sys_inFlight :: "nat jsmap"
  sys_impls :: "(string \<times> pstate) list"
  sys_streams :: "StreamInfo jsmap"
  sys_downloaders :: "StreamDownloader list"
  sys_workers :: "worker list"

definition sys0 :: sys where
  "sys0 = \<lparr> sys_cache = chunkCache, sys_inFlight = [], sys_impls = [], sys_streams = [],
            sys_downloaders = [], sys_workers = [] \<rparr>"

text \<open>
  The part of \<open>downloadChunk\<close> before its \<open>await\<close>: a usable cached buffer is returned; a
  key in the registry gives the promise found there; otherwise \<open>_downloadChunkImpl\<close> is
  launched and its promise is put in the registry.
\<close>

definition call_downloadChunk :: "sys \<Rightarrow> string \<Rightarrow> call_outcome \<times> sys" where
  "call_downloadChunk s cacheKey =
     (let (cached, c1) = ChunkCache_get (sys_cache s) cacheKey;
          s1 = s\<lparr> sys_cache := c1 \<rparr>
      in case (case cached of None \<Rightarrow> None | Some b \<Rightarrow> if length b > 0 then Some b else None) of
           Some b \<Rightarrow> (Hit b, s1)
         | None \<Rightarrow>
             (case Map_get (sys_inFlight s1) cacheKey of
                Some p \<Rightarrow> (Joined p, s1)
              | None \<Rightarrow>
                  (let p = length (sys_impls s1)
                   in (Started p,
                       s1\<lparr> sys_impls := sys_impls s1 @ [(cacheKey, Pending)],
                           sys_inFlight := Map_set cacheKey p (sys_inFlight s1) \<rparr>))))"

text \<open>
  \<open>_downloadChunkImpl\<close> number \<open>p\<close> returns \<open>r\<close>: a non-empty buffer is put in the cache
  first.
\<close>

definition impl_returns :: "sys \<Rightarrow> nat \<Rightarrow> buffer option \<Rightarrow> sys option" where
  "impl_returns s p r =
     (if p < length (sys_impls s) \<and> snd (sys_impls s ! p) = Pending then
        (let key = fst (sys_impls s ! p);
             c1 = (case r of
                     None \<Rightarrow> sys_cache s
                   | Some buf \<Rightarrow> if length buf > 0 then ChunkCache_set (sys_cache s) key buf
                                 else sys_cache s)
         in Some (s\<lparr> sys_cache := c1, sys_impls := (sys_impls s)[p := (key, Settled r)] \<rparr>))
      else None)"

text \<open>The launching call resumes after its \<open>await\<close>: \<open>finally { inFlight.delete (cacheKey) }\<close>.\<close>

definition run_finally :: "sys \<Rightarrow> nat \<Rightarrow> sys option" where
  "run_finally s p =
     (if p < length (sys_impls s) then
        (case snd (sys_impls s ! p) of
           Settled r \<Rightarrow>
             (let key = fst (sys_impls s ! p)
              in Some (s\<lparr> sys_inFlight := Map_delete key (sys_inFlight s),
                          sys_impls := (sys_impls s)[p := (key, Finalized r)] \<rparr>))
         | _ \<Rightarrow> None)
      else None)"

text \<open>
  A worker at the head of its loop \<open>while (this.running)\<close>: it leaves when the flag is
  down; otherwise it takes the next index and sleeps when there is none, or calls
  \<open>downloadChunk\<close> and awaits it.
\<close>

definition set_worker :: "sys \<Rightarrow> nat \<Rightarrow> worker_state \<Rightarrow> sys" where
  "set_worker s w st = s\<lparr> sys_workers := (sys_workers s)[w := (sys_workers s ! w)\<lparr> wk_state := st \<rparr>] \<rparr>"

definition worker_loop_head :: "sys \<Rightarrow> nat \<Rightarrow> sys" where
  "worker_loop_head s w =
     (let dref = wk_downloader (sys_workers s ! w);
          d = sys_downloaders s ! dref
      in if \<not> running d then set_worker s w Exited
         else
           (let gen = seekGeneration d;
                (idx, d1) = getNextChunk (sys_cache s) (sys_inFlight s) d;
                s1 = s\<lparr> sys_downloaders := (sys_downloaders s)[dref := d1] \<rparr>
            in case idx of
                 None \<Rightarrow> set_worker s1 w Sleeping
               | Some i \<Rightarrow>
                   (case call_downloadChunk s1 (cacheKey_of (sd_videoId d) i) of
                      (oc, s2) \<Rightarrow> set_worker s2 w (Downloading gen oc))))"

text \<open>
  An awaited \<open>downloadChunk\<close> is over: at once on a hit; when the promise joined is settled;
  and, for the call that launched the download, when its \<open>finally\<close> block has run.
\<close>

definition call_done :: "sys \<Rightarrow> call_outcome \<Rightarrow> bool" where
  "call_done s oc =
     (case oc of
        Hit b \<Rightarrow> True
      | Joined p \<Rightarrow> p < length (sys_impls s) \<and> snd (sys_impls s ! p) \<noteq> Pending
      | Started p \<Rightarrow> p < length (sys_impls s) \<and>
                     (case snd (sys_impls s ! p) of Finalized r \<Rightarrow> True | _ \<Rightarrow> False))"

text \<open>
  A worker resumes: from its sleep, at the head of the loop; from a download, at the head of
  the loop when a seek happened meanwhile, and into the cooldown sleep otherwise.
\<close>

definition worker_wakes :: "sys \<Rightarrow> nat \<Rightarrow> sys option" where
  "worker_wakes s w =
     (if w < length (sys_workers s) then
        (case wk_state (sys_workers s ! w) of
           Exited \<Rightarrow> None
         | Sleeping \<Rightarrow> Some (worker_loop_head s w)
         | Downloading gen oc \<Rightarrow>
             (if call_done s oc then
                (if gen \<noteq> seekGeneration (sys_downloaders s ! wk_downloader (sys_workers s ! w))
                 then Some (worker_loop_head s w)
                 else Some (set_worker s w Sleeping))
              else None))
      else None)"

text \<open>
  \<open>start (fromChunk)\<close>: each \<open>this._worker (i)\<close> runs up to its first \<open>await\<close> before the
  next one is created.
\<close>

definition spawn_worker :: "nat \<Rightarrow> sys \<Rightarrow> sys" where
  "spawn_worker dref s =
     (let w = length (sys_workers s);
          s1 = s\<lparr> sys_workers := sys_workers s @ [\<lparr> wk_downloader = dref, wk_state = Sleeping \<rparr>] \<rparr>;
          s2 = worker_loop_head s1 w;
          d = sys_downloaders s2 ! dref
      in s2\<lparr> sys_downloaders :=
                (sys_downloaders s2)[dref := d\<lparr> workerPromises := workerPromises d @ [w] \<rparr>] \<rparr>)"

definition StreamDownloader_start :: "sys \<Rightarrow> nat \<Rightarrow> int \<Rightarrow> sys" where
  "StreamDownloader_start s dref fromChunk =
     (let d = sys_downloaders s ! dref;
          s1 = s\<lparr> sys_downloaders :=
                     (sys_downloaders s)[dref := d\<lparr> cursor := fromChunk, playbackChunk := 0,
                                                   running := True \<rparr>] \<rparr>
      in (spawn_worker dref ^^ PARALLEL_WORKERS) s1)"

text \<open>
  The end of \<open>startTelegramStream\<close>: a new downloader is started at \<open>PREFETCH_CHUNKS\<close> and
  the stream is registered.
\<close>

definition register_stream :: "sys \<Rightarrow> string \<Rightarrow> int \<Rightarrow> string \<Rightarrow> sys" where
  "register_stream s videoId totalSize mime =
     (let dref = length (sys_downloaders s);
          s1 = s\<lparr> sys_downloaders := sys_downloaders s @ [StreamDownloader_new videoId totalSize] \<rparr>;
          s2 = StreamDownloader_start s1 dref PREFETCH_CHUNKS
      in s2\<lparr> sys_streams :=
                Map_set videoId \<lparr> fileSize = totalSize, mimeType = mime, downloader = Some dref \<rparr>
                  (sys_streams s2) \<rparr>)"

definition stop_downloader :: "sys \<Rightarrow> StreamInfo \<Rightarrow> sys" where
  "stop_downloader s streamInfo =
     (case downloader streamInfo of
        None \<Rightarrow> s
      | Some dref \<Rightarrow>
          s\<lparr> sys_downloaders :=
               (sys_downloaders s)[dref := StreamDownloader_stop (sys_downloaders s ! dref)] \<rparr>)"

definition stopStream :: "sys \<Rightarrow> string \<Rightarrow> sys" where
  "stopStream s videoId =
     (let s1 = (case Map_get (sys_streams s) videoId of
                  None \<Rightarrow> s
                | Some streamInfo \<Rightarrow> stop_downloader s streamInfo);
          s2 = s1\<lparr> sys_streams := Map_delete videoId (sys_streams s1) \<rparr>
      in s2\<lparr> sys_cache := ChunkCache_deletePrefix (sys_cache s2) (videoId @ '':'') \<rparr>)"

text \<open>
  The part of \<open>destroy\<close> before its first \<open>await\<close>, as far as it touches this state: the
  downloader of every registered stream is stopped, the streams are forgotten and the
  cache is cleared.
\<close>

definition destroy :: "sys \<Rightarrow> sys" where
  "destroy s =
     (let s1 = foldl stop_downloader s (map snd (sys_streams s))
      in s1\<lparr> sys_streams := [], sys_cache := ChunkCache_clear (sys_cache s1) \<rparr>)"

datatype event =
    DownloadChunk string
  | ImplReturns nat "buffer option"
  | Finally nat
  | WorkerWakes nat
  | StartStream string int string
  | StopStream string
  | Destroy

fun step :: "sys \<Rightarrow> event \<Rightarrow> sys option" where
  "step s (DownloadChunk cacheKey) = Some (snd (call_downloadChunk s cacheKey))"
| "step s (ImplReturns p r) = impl_returns s p r"
| "step s (Finally p) = run_finally s p"
| "step s (WorkerWakes w) = worker_wakes s w"
| "step s (StartStream videoId totalSize mime) = Some (register_stream s videoId totalSize mime)"
| "step s (StopStream videoId) = Some (stopStream s videoId)"
| "step s Destroy = Some (destroy s)"

fun run :: "sys \<Rightarrow> event list \<Rightarrow> sys option" where
  "run s [] = Some s"
| "run s (ev # evs) = (case step s ev of None \<Rightarrow> None | Some s1 \<Rightarrow> run s1 evs)"

text \<open>The downloads of a key that are outstanding, and all launches for a key so far.\<close>

definition outstanding :: "sys \<Rightarrow> string \<Rightarrow> nat" where
  "outstanding s k = length (filter (\<lambda>kp. fst kp = k \<and> snd kp = Pending) (sys_impls s))"

definition launches :: "sys \<Rightarrow> string \<Rightarrow> nat" where
  "launches s k = length (filter (\<lambda>kp. fst kp = k) (sys_impls s))"

text \<open>
  Launch \<open>p\<close> for key \<open>k\<close> is registered: launched and not yet finalized. The invariant of
  the registry: it holds exactly the registered launches, each under its key.
\<close>

definition registered :: "sys \<Rightarrow> nat \<Rightarrow> string \<Rightarrow> bool" where
  "registered s p k =
     (p < length (sys_impls s) \<and> fst (sys_impls s ! p) = k \<and>
      (case snd (sys_impls s ! p) of Finalized r \<Rightarrow> False | _ \<Rightarrow> True))"

definition registry_inv :: "sys \<Rightarrow> bool" where
  "registry_inv s = (\<forall>k p. Map_get (sys_inFlight s) k = Some p \<longleftrightarrow> registered s p k)"

text \<open>
  The registry part of the state, and the one way it changes while no download returns
  and no \<open>finally\<close> block runs: not at all, or by the launch of a download for a key that is
  not in the registry.
\<close>

definition reg :: "sys \<Rightarrow> nat jsmap \<times> (string \<times> pstate) list" where
  "reg s = (sys_inFlight s, sys_impls s)"

definition launch ::
  "nat jsmap \<times> (string \<times> pstate) list \<Rightarrow> nat jsmap \<times> (string \<times> pstate) list \<Rightarrow> bool" where
  "launch r r' =
     (r' = r \<or>
      (\<exists>k. Map_get (fst r) k = None \<and>
           r' = (Map_set k (length (snd r)) (fst r), snd r @ [(k, Pending)])))"

text \<open>A call on the key would find a usable buffer in the cache.\<close>

definition cache_hit :: "sys \<Rightarrow> string \<Rightarrow> bool" where
  "cache_hit s k =
     (case Map_get (map_kv (sys_cache s)) k of None \<Rightarrow> False | Some b \<Rightarrow> length b > 0)"

text \<open>A state for concrete runs: one call on \<open>v:0\<close> has launched a download.\<close>

definition demo_sys :: sys where
  "demo_sys = sys0\<lparr> sys_inFlight := [(''v:0'', 0)], sys_impls := [(''v:0'', Pending)] \<rparr>"

definition worker_states :: "sys \<Rightarrow> worker_state list" where
  "worker_states s = map wk_state (sys_workers s)"

definition cached_keys :: "sys \<Rightarrow> string list" where
  "cached_keys s = Map_keys (map_kv (sys_cache s))"

text \<open>
  A stream of five chunks is started: its nine workers find nothing beyond the pre-fetched
  head and sleep. In the first run the stream is stopped at once. In the second a request
  handler has called \<open>downloadChunk\<close> on the first chunk before the stop, and that
  download returns three bytes after it.
\<close>

definition demo_stop_run :: "sys option" where
  "demo_stop_run = run sys0 [StartStream ''v'' 5242880 ''video/mp4'', StopStream ''v'']"

definition demo_late_run :: "sys option" where
  "demo_late_run =
     run sys0 [StartStream ''v'' 5242880 ''video/mp4'', DownloadChunk ''v:0'', StopStream ''v'',
               ImplReturns 0 (Some [1, 2, 3])]"

definition demo_started :: sys where
  "demo_started =
     sys0\<lparr> sys_streams :=
             [(''v'', \<lparr> fileSize = 5242880, mimeType = ''video/mp4'', downloader = Some 0 \<rparr>)],
           sys_downloaders :=
             [\<lparr> sd_videoId = ''v'', sd_fileSize = 5242880, sd_totalChunks = 5, playbackChunk = 0,
                cursor = 50, seekGeneration = 0, running = True,
                workerPromises = [0 ..< 9] \<rparr>],
           sys_workers := replicate 9 \<lparr> wk_downloader = 0, wk_state = Sleeping \<rparr> \<rparr>"

text \<open>The same stream with its first chunk fetched by a request handler and cached.\<close>

definition demo_cached :: sys where
  "demo_cached =
     demo_started\<lparr> sys_cache := \<lparr> maxBytes = CACHE_MAX_BYTES, usedBytes = 3,
                                  map_kv = [(''v:0'', [1, 2, 3])] \<rparr>,
                    sys_inFlight := [(''v:0'', 0)],
                    sys_impls := [(''v:0'', Settled (Some [1, 2, 3]))] \<rparr>"

section \<open>The session pool\<close>

text \<open>
  What the remote side and the file system do is given from outside, by the number of
  the operation (\<open>tick\<close>): the reply to a fresh \<open>start\<close>, whether a \<open>connect\<close> with a session
  string succeeds, whether \<open>getMe\<close> succeeds, the session string a connected client saves,
  and whether writing the session file succeeds.

  A fresh \<open>start\<close> connects and then runs the authentication exchange; \<open>ConnectError\<close> is
  a failure before any exchange. A \<open>Flood\<close> reply carries the seconds to wait.
\<close>

datatype start_reply = Authorized string | Flood nat | AuthError | ConnectError

record transport =
  start_reply_at :: "nat \<Rightarrow> start_reply"
  connect_ok_at :: "nat \<Rightarrow> string \<Rightarrow> bool"
  getMe_ok_at :: "nat \<Rightarrow> bool"
  session_after :: "nat \<Rightarrow> string \<Rightarrow> string"
  write_ok_at :: "nat \<Rightarrow> bool"

text \<open>
  What can be observed of the pool: an authentication exchange and its reply, a
  connect-only handshake with a session string (both with the pool slot the client is
  meant for), the identity lookup, a wait, and a write of the session file.
\<close>

datatype observation =
    AuthExchange nat start_reply
  | ConnectOnly nat string
  | GetMe
  | Wait nat
  | Persist string

datatype thrown = FloodError nat | OtherError

datatype 'a result = Returned 'a | Threw thrown

record pool_state =
  ps_clientPool :: "client list"
  ps_saved :: "string option"
  ps_tick :: nat
  ps_log :: "observation list"
  ps_results :: "unit result list"

definition observe :: "observation list \<Rightarrow> pool_state \<Rightarrow> pool_state" where
  "observe evs st = st\<lparr> ps_tick := ps_tick st + 1, ps_log := ps_log st @ evs \<rparr>"

text \<open>\<open>loadSavedSession\<close>: the stored string when there is one and it is not empty.\<close>

definition loadSavedSession :: "pool_state \<Rightarrow> string option" where
  "loadSavedSession st =
     (case ps_saved st of None \<Rightarrow> None | Some s \<Rightarrow> if s \<noteq> [] then Some s else None)"

text \<open>\<open>saveSession\<close> swallows a failure of the write.\<close>

definition saveSession :: "transport \<Rightarrow> string \<Rightarrow> pool_state \<Rightarrow> pool_state" where
  "saveSession tr sessionStr st =
     (if write_ok_at tr (ps_tick st) then
        (observe [Persist sessionStr] st)\<lparr> ps_saved := Some sessionStr \<rparr>
      else observe [] st)"

text \<open>
  \<open>createClientWithSession\<close>: with a non-empty session string the client only connects;
  with an empty one it starts afresh, which runs the authentication exchange.
\<close>

definition createClientWithSession ::
  "transport \<Rightarrow> nat \<Rightarrow> string \<Rightarrow> pool_state \<Rightarrow> client result \<times> pool_state" where
  "createClientWithSession tr slot sessionStr st =
     (if sessionStr \<noteq> [] then
        (if connect_ok_at tr (ps_tick st) sessionStr then
           (Returned \<lparr> session = sessionStr, connected = True \<rparr>,
            observe [ConnectOnly slot sessionStr] st)
         else (Threw OtherError, observe [ConnectOnly slot sessionStr] st))
      else
        (case start_reply_at tr (ps_tick st) of
           Authorized s \<Rightarrow>
             (Returned \<lparr> session = s, connected = True \<rparr>,
              observe [AuthExchange slot (Authorized s)] st)
         | Flood secs \<Rightarrow> (Threw (FloodError secs), observe [AuthExchange slot (Flood secs)] st)
         | AuthError \<Rightarrow> (Threw OtherError, observe [AuthExchange slot AuthError] st)
         | ConnectError \<Rightarrow> (Threw OtherError, observe [] st)))"

text \<open>
  \<open>ensureClientPool\<close> is an \<open>async\<close> function: it runs until it awaits, and other tasks,
  among them other calls of \<open>ensureClientPool\<close>, run before it goes on. A call in progress
  is at one of its awaits. The operation awaited was begun when the call got there, so what
  it will give is part of the task:

  \<^item> \<open>ConnectingSaved\<close>: \<open>await createClientWithSession (creds, masterSession)\<close> with the
    saved session;
  \<^item> \<open>CheckingIdentity\<close>: \<open>await test.getMe ()\<close>;
  \<^item> \<open>Authenticating\<close>: \<open>await createClientWithSession (creds, '')\<close> in the loop
    \<open>while (!primary)\<close>;
  \<^item> \<open>FloodWaiting\<close>: the sleeps of the countdown (taken as one);
  \<^item> \<open>Cloning\<close>: \<open>await Promise.all (clonePromises)\<close>, the connects of the clones all
    begun before;
  \<^item> \<open>Finished\<close>: the call has returned or thrown.
\<close>

datatype task =
    ConnectingSaved string "client result"
  | CheckingIdentity string client bool
  | Authenticating "client result"
  | FloodWaiting
  | Cloning "client result list"
  | Finished "unit result"

text \<open>The loop \<open>while (!primary)\<close> begins an authentication and awaits it.\<close>

definition begin_auth :: "transport \<Rightarrow> pool_state \<Rightarrow> task \<times> pool_state" where
  "begin_auth tr st =
     (case createClientWithSession tr 0 [] st of (r, st1) \<Rightarrow> (Authenticating r, st1))"

text \<open>
  The clones: one \<open>createClientWithSession (creds, masterSession)\<close> for every slot from the
  length of the pool up to the pool size, each begun at once, all awaited together.
\<close>

fun start_clones ::
  "transport \<Rightarrow> string \<Rightarrow> nat list \<Rightarrow> pool_state \<Rightarrow> client result list \<times> pool_state" where
  "start_clones tr masterSession [] st = ([], st)"
| "start_clones tr masterSession (i # slots) st =
     (case createClientWithSession tr i masterSession st of
        (r, st1) \<Rightarrow>
          (case start_clones tr masterSession slots st1 of (rs, st2) \<Rightarrow> (r # rs, st2)))"

definition begin_clones :: "transport \<Rightarrow> string \<Rightarrow> pool_state \<Rightarrow> task \<times> pool_state" where
  "begin_clones tr masterSession st =
     (case start_clones tr masterSession [length (ps_clientPool st) ..< CLIENT_POOL_SIZE] st of
        (rs, st1) \<Rightarrow> (Cloning rs, st1))"

text \<open>
  From the call to the first await: the count of connected clients, the saved session,
  and the connect with it or, when there is none, the first authentication.
\<close>

definition ensureClientPool :: "transport \<Rightarrow> pool_state \<Rightarrow> task \<times> pool_state" where
  "ensureClientPool tr st =
     (let alive = length (filter connected (ps_clientPool st))
      in if alive \<ge> CLIENT_POOL_SIZE then (Finished (Returned ()), st)
         else
           (case loadSavedSession st of
              Some masterSession \<Rightarrow>
                (case createClientWithSession tr 0 masterSession st of
                   (r, st1) \<Rightarrow> (ConnectingSaved masterSession r, st1))
            | None \<Rightarrow> begin_auth tr st))"

text \<open>
  From one await to the next. An exception of the connect with the saved session or of
  \<open>getMe\<close> empties the pool and leads to the authentication. After \<open>getMe\<close> the session
  string is read again and saved when it changed; the empty string stands for \<open>null\<close>,
  which the test \<open>!masterSession\<close> treats alike. A flood error with a wait time is waited
  out (plus five seconds) and the authentication is begun again; any other exception is
  thrown on.
\<close>

definition resume :: "transport \<Rightarrow> task \<Rightarrow> pool_state \<Rightarrow> task \<times> pool_state" where
  "resume tr t st =
     (case t of
        ConnectingSaved masterSession r \<Rightarrow>
          (case r of
             Threw e \<Rightarrow> begin_auth tr (st\<lparr> ps_clientPool := [] \<rparr>)
           | Returned test \<Rightarrow>
               (CheckingIdentity masterSession test (getMe_ok_at tr (ps_tick st)),
                observe [GetMe] st))
      | CheckingIdentity masterSession test ok \<Rightarrow>
          (if \<not> ok then begin_auth tr (st\<lparr> ps_clientPool := [] \<rparr>)
           else
             (let updatedSession = session_after tr (ps_tick st) masterSession;
                  st1 = (if updatedSession \<noteq> masterSession
                         then saveSession tr updatedSession st else st);
                  master1 = (if updatedSession \<noteq> masterSession
                             then updatedSession else masterSession);
                  st2 = st1\<lparr> ps_clientPool := [test\<lparr> session := updatedSession \<rparr>] \<rparr>
              in if master1 \<noteq> [] then begin_clones tr master1 st2 else begin_auth tr st2))
      | Authenticating r \<Rightarrow>
          (case r of
             Returned primary \<Rightarrow>
               (let masterSession = session primary;
                    st1 = saveSession tr masterSession st;
                    st2 = st1\<lparr> ps_clientPool := [primary] \<rparr>
                in begin_clones tr masterSession st2)
           | Threw (FloodError secs) \<Rightarrow>
               (if secs \<noteq> 0
                then (FloodWaiting, st\<lparr> ps_log := ps_log st @ [Wait (secs + 5)] \<rparr>)
                else (Finished (Threw (FloodError secs)), st))
           | Threw OtherError \<Rightarrow> (Finished (Threw OtherError), st))
      | FloodWaiting \<Rightarrow> begin_auth tr st
      | Cloning rs \<Rightarrow>
          (Finished (Returned ()),
           st\<lparr> ps_clientPool :=
                 ps_clientPool st @ List.map_filter (\<lambda>r. case r of Returned c \<Rightarrow> Some c | Threw e \<Rightarrow> None) rs \<rparr>)
      | Finished r \<Rightarrow> (Finished r, st))"

text \<open>
  One process run: calls of \<open>ensureClientPool\<close>, the calls in progress going on one step at
  a time in any order, and clients that lose their connection. What a call returns or
  throws is recorded when it finishes.
\<close>

record pool_sys =
  pool :: pool_state
  tasks :: "task list"

datatype pool_event = Call | Resume nat | Drop nat

definition settle :: "task \<Rightarrow> pool_state \<Rightarrow> pool_state" where
  "settle t st =
     (case t of Finished r \<Rightarrow> st\<lparr> ps_results := ps_results st @ [r] \<rparr> | _ \<Rightarrow> st)"

fun is_Finished :: "task \<Rightarrow> bool" where
  "is_Finished (Finished r) = True"
| "is_Finished _ = False"

fun pool_step :: "transport \<Rightarrow> pool_sys \<Rightarrow> pool_event \<Rightarrow> pool_sys" where
  "pool_step tr s Call =
     (case ensureClientPool tr (pool s) of
        (t, st) \<Rightarrow> \<lparr> pool = settle t st, tasks = tasks s @ [t] \<rparr>)"
| "pool_step tr s (Resume i) =
     (if i < length (tasks s) \<and> \<not> is_Finished (tasks s ! i) then
        (case resume tr (tasks s ! i) (pool s) of
           (t, st) \<Rightarrow> \<lparr> pool = settle t st, tasks = (tasks s)[i := t] \<rparr>)
      else s)"
| "pool_step tr s (Drop i) =
     (if i < length (ps_clientPool (pool s))
      then s\<lparr> pool := (pool s)\<lparr> ps_clientPool :=
                 (ps_clientPool (pool s))[i := (ps_clientPool (pool s) ! i)\<lparr> connected := False \<rparr>] \<rparr> \<rparr>
      else s)"

definition run_pool :: "transport \<Rightarrow> pool_sys \<Rightarrow> pool_event list \<Rightarrow> pool_sys" where
  "run_pool tr s evs = foldl (pool_step tr) s evs"

definition process_start :: "string option \<Rightarrow> pool_sys" where
  "process_start saved0 =
     \<lparr> pool = \<lparr> ps_clientPool = [], ps_saved = saved0, ps_tick = 0, ps_log = [], ps_results = [] \<rparr>,
       tasks = [] \<rparr>"

text \<open>Counting exchanges: all of them, and those that ended in an authorization.\<close>

fun is_exchange :: "observation \<Rightarrow> bool" where
  "is_exchange (AuthExchange i r) = True"
| "is_exchange _ = False"

fun is_success :: "observation \<Rightarrow> bool" where
  "is_success (AuthExchange i (Authorized s)) = True"
| "is_success _ = False"

definition exchanges :: "observation list \<Rightarrow> nat" where
  "exchanges lg = length (filter is_exchange lg)"

definition successes :: "observation list \<Rightarrow> nat" where
  "successes lg = length (filter is_success lg)"

text \<open>
  Surroundings for the examples, in which every operation succeeds: a fresh start is
  authorized with the session string \<open>k\<close>, every connect and identity lookup succeeds, the
  session string does not change, and the session file can be written; and the same with
  the first start answered by a rate limit of two seconds. A single call run to its end,
  and two schedules of two calls: the second call made while the first awaits its
  authentication, and the second call made after the first has returned.
\<close>

definition demo_transport :: transport where
  "demo_transport =
     \<lparr> start_reply_at = (\<lambda>t. Authorized ''k''), connect_ok_at = (\<lambda>t s. True),
       getMe_ok_at = (\<lambda>t. True), session_after = (\<lambda>t s. s), write_ok_at = (\<lambda>t. True) \<rparr>"

definition flood_transport :: transport where
  "flood_transport =
     demo_transport\<lparr> start_reply_at := (\<lambda>t. if t = 0 then Flood 2 else Authorized ''k'') \<rparr>"

definition single_call :: "pool_event list" where
  "single_call = [Call, Resume 0, Resume 0, Resume 0, Resume 0]"

definition overlapping_calls :: "pool_event list" where
  "overlapping_calls = [Call, Call, Resume 0, Resume 1, Resume 0, Resume 1]"

definition consecutive_calls :: "pool_event list" where
  "consecutive_calls = [Call, Resume 0, Resume 0, Call]"

section \<open>Properties of the chunk cache\<close>

lemma bytes_of_Nil [simp]: "bytes_of [] = 0" by (simp add: bytes_of_def)
lemma bytes_of_Cons [simp]: "bytes_of (p # m) = int (length (snd p)) + bytes_of m" by (simp add: bytes_of_def)
lemma bytes_of_append [simp]: "bytes_of (m @ m') = bytes_of m + bytes_of m'" by (simp add: bytes_of_def)
lemma bytes_of_nonneg: "0 \<le> bytes_of m" by (induction m) auto

lemma bytes_of_delete:
  "distinct (map fst m) \<Longrightarrow> map_of m k = Some b \<Longrightarrow>
   bytes_of (filter (\<lambda>p. fst p \<noteq> k) m) = bytes_of m - int (length b)"
proof (induction m)
  case Nil then show ?case by simp
next
  case (Cons p m)
  show ?case
  proof (cases "fst p = k")
    case True
    with Cons.prems have "k \<notin> fst ` set m" and "snd p = b" by (auto split: if_splits)
    then have "filter (\<lambda>p. fst p \<noteq> k) m = m" by (auto simp: filter_id_conv)
    with True \<open>snd p = b\<close> show ?thesis by simp
  next
    case False
    with Cons show ?thesis by (auto split: if_splits)
  qed
qed

lemma distinct_delete: "distinct (map fst m) \<Longrightarrow> distinct (map fst (filter P m))"
  by (simp add: distinct_map_filter)

lemma evict_inv: "cache_inv c \<Longrightarrow> cache_inv (evict c n)"
proof (induction c n rule: evict.induct)
  case (1 c n)
  show ?case
  proof (cases "usedBytes c + n > maxBytes c \<and> Map_size (map_kv c) > 0")
    case False
    then show ?thesis using "1.prems" by (subst evict.simps) auto
  next
    case True
    then obtain oldest b rest where m: "map_kv c = (oldest, b) # rest"
      by (cases "map_kv c") (auto simp: Map_size_def)
    let ?c' = "c\<lparr> usedBytes := usedBytes c - int (length b), map_kv := Map_delete oldest (map_kv c) \<rparr>"
    from "1.prems" m have "oldest \<notin> fst ` set rest" by (auto simp: cache_inv_def)
    then have f: "filter (\<lambda>p. fst p \<noteq> oldest) rest = rest" by (auto simp: filter_id_conv)
    have "cache_inv ?c'" using "1.prems" m f by (simp add: cache_inv_def Map_delete_def)
    then have "cache_inv (evict ?c' n)" using "1.IH"[OF True m refl] by simp
    then show ?thesis using True m by (subst evict.simps) simp
  qed
qed

lemma evict_maxBytes [simp]: "maxBytes (evict c n) = maxBytes c"
proof (induction c n rule: evict.induct)
  case (1 c n)
  show ?case
  proof (cases "usedBytes c + n > maxBytes c \<and> Map_size (map_kv c) > 0")
    case False
    then show ?thesis by (subst evict.simps) auto
  next
    case True
    then obtain oldest b rest where m: "map_kv c = (oldest, b) # rest"
      by (cases "map_kv c") (auto simp: Map_size_def)
    show ?thesis using True m "1.IH"[OF True m refl] by (subst evict.simps) simp
  qed
qed

lemma evict_post: "usedBytes (evict c n) + n \<le> maxBytes c \<or> map_kv (evict c n) = []"
proof (induction c n rule: evict.induct)
  case (1 c n)
  show ?case
  proof (cases "usedBytes c + n > maxBytes c \<and> Map_size (map_kv c) > 0")
    case False
    then show ?thesis by (subst (1 2) evict.simps) (auto simp: Map_size_def)
  next
    case True
    then obtain oldest b rest where m: "map_kv c = (oldest, b) # rest"
      by (cases "map_kv c") (auto simp: Map_size_def)
    show ?thesis using True m "1.IH"[OF True m refl] by (subst (1 2) evict.simps) simp
  qed
qed

lemma evict_suffix: "distinct (map fst (map_kv c)) \<Longrightarrow> \<exists>j. map_kv (evict c n) = drop j (map_kv c)"
proof (induction c n rule: evict.induct)
  case (1 c n)
  show ?case
  proof (cases "usedBytes c + n > maxBytes c \<and> Map_size (map_kv c) > 0")
    case False
    then have "map_kv (evict c n) = drop 0 (map_kv c)" by (subst evict.simps) auto
    then show ?thesis by blast
  next
    case True
    then obtain oldest b rest where m: "map_kv c = (oldest, b) # rest"
      by (cases "map_kv c") (auto simp: Map_size_def)
    let ?c' = "c\<lparr> usedBytes := usedBytes c - int (length b), map_kv := Map_delete oldest (map_kv c) \<rparr>"
    from "1.prems" m have "oldest \<notin> fst ` set rest" by auto
    then have f: "filter (\<lambda>p. fst p \<noteq> oldest) rest = rest" by (auto simp: filter_id_conv)
    have r: "map_kv ?c' = rest" using m f by (simp add: Map_delete_def)
    with "1.prems" m have "distinct (map fst (map_kv ?c'))" by simp
    then obtain j where "map_kv (evict ?c' n) = drop j (map_kv ?c')"
      using "1.IH"[OF True m refl] by blast
    then have "map_kv (evict c n) = drop (Suc j) (map_kv c)"
      using True m r by (subst evict.simps) simp
    then show ?thesis by blast
  qed
qed

lemma Map_delete_absent: "k \<notin> fst ` set m \<Longrightarrow> Map_delete k m = m"
  by (auto simp: Map_delete_def filter_id_conv)

lemma Map_delete_not_has [simp]: "\<not> Map_has (Map_delete k m) k"
  by (auto simp: Map_has_def Map_delete_def)

lemma Map_set_fresh: "\<not> Map_has m k \<Longrightarrow> Map_set k v m = m @ [(k, v)]"
  by (simp add: Map_set_def)

lemma Map_has_drop: "\<not> Map_has m k \<Longrightarrow> \<not> Map_has (drop j m) k"
  by (auto simp: Map_has_def dest: in_set_dropD)

lemma Map_get_None_iff: "Map_get m k = None \<longleftrightarrow> \<not> Map_has m k"
  by (simp add: Map_get_def Map_has_def map_of_eq_None_iff)

lemma reclaim_map: "map_kv (reclaim c k) = Map_delete k (map_kv c)"
  by (auto simp: reclaim_def Map_get_None_iff Map_has_def Map_delete_absent split: option.splits)

lemma reclaim_maxBytes [simp]: "maxBytes (reclaim c k) = maxBytes c"
  by (simp add: reclaim_def split: option.splits)

lemma reclaim_inv: "cache_inv c \<Longrightarrow> cache_inv (reclaim c k)"
  by (auto simp: reclaim_def cache_inv_def Map_delete_def Map_get_def bytes_of_delete distinct_delete
           split: option.splits)

lemma evict_not_has: "cache_inv c \<Longrightarrow> \<not> Map_has (map_kv c) k \<Longrightarrow> \<not> Map_has (map_kv (evict c n)) k"
  using evict_suffix[of c n] by (auto simp: cache_inv_def Map_has_drop)

lemma set_inv:
  assumes "cache_inv c"
  shows "cache_inv (ChunkCache_set c k b)"
proof -
  let ?c1 = "reclaim c k"
  let ?c2 = "evict ?c1 (int (length b))"
  have i1: "cache_inv ?c1" using assms by (rule reclaim_inv)
  have i2: "cache_inv ?c2" using i1 by (rule evict_inv)
  have nh: "\<not> Map_has (map_kv ?c2) k"
    using evict_not_has[OF i1] by (simp add: reclaim_map)
  show ?thesis using i2 nh
    by (auto simp: ChunkCache_set_def Let_def Map_set_fresh cache_inv_def Map_has_def)
qed

lemma set_maxBytes [simp]: "maxBytes (ChunkCache_set c k b) = maxBytes c"
  by (simp add: ChunkCache_set_def Let_def)

lemma set_budget:
  assumes "cache_inv c" and "int (length b) \<le> maxBytes c"
  shows "usedBytes (ChunkCache_set c k b) \<le> maxBytes c"
proof -
  let ?c1 = "reclaim c k"
  let ?c2 = "evict ?c1 (int (length b))"
  have i2: "cache_inv ?c2" using assms(1) by (intro evict_inv reclaim_inv)
  have "usedBytes ?c2 + int (length b) \<le> maxBytes c"
    using evict_post[of ?c1 "int (length b)"] i2 assms(2)
    by (auto simp: cache_inv_def)
  then show ?thesis by (simp add: ChunkCache_set_def Let_def)
qed

lemma get_result:
  assumes "cache_inv c" and "Map_get (map_kv c) k = Some b"
  shows "ChunkCache_get c k = (Some b, c\<lparr> map_kv := Map_delete k (map_kv c) @ [(k, b)] \<rparr>)"
  using assms by (simp add: ChunkCache_get_def Map_set_fresh)

lemma get_miss: "Map_get (map_kv c) k = None \<Longrightarrow> ChunkCache_get c k = (None, c)"
  by (simp add: ChunkCache_get_def)

lemma get_inv:
  assumes "cache_inv c"
  shows "cache_inv (snd (ChunkCache_get c k))"
proof (cases "Map_get (map_kv c) k")
  case None
  then show ?thesis using assms by (simp add: get_miss)
next
  case (Some b)
  have "bytes_of (Map_delete k (map_kv c)) = bytes_of (map_kv c) - int (length b)"
    using assms Some by (simp add: Map_delete_def Map_get_def cache_inv_def bytes_of_delete)
  moreover have "distinct (map fst (Map_delete k (map_kv c)))"
    using assms by (simp add: Map_delete_def cache_inv_def distinct_delete)
  moreover have "k \<notin> fst ` set (Map_delete k (map_kv c))"
    by (auto simp: Map_delete_def)
  ultimately show ?thesis using assms Some
    by (simp add: get_result cache_inv_def)
qed

lemma get_usedBytes [simp]: "usedBytes (snd (ChunkCache_get c k)) = usedBytes c"
  by (simp add: ChunkCache_get_def split: option.splits)

lemma get_maxBytes [simp]: "maxBytes (snd (ChunkCache_get c k)) = maxBytes c"
  by (simp add: ChunkCache_get_def split: option.splits)

lemma bytes_of_filter_le: "bytes_of (filter P m) \<le> bytes_of m"
  by (induction m) auto

lemma deletePrefix_step_inv: "cache_inv c \<Longrightarrow> cache_inv (deletePrefix_step pre c key)"
  by (auto simp: deletePrefix_step_def cache_inv_def Map_delete_def Map_get_def
         bytes_of_delete distinct_delete split: option.splits)

lemma deletePrefix_step_map:
  "map_kv (deletePrefix_step pre c key) =
     (if startsWith key pre then Map_delete key (map_kv c) else map_kv c)"
  by (auto simp: deletePrefix_step_def Map_get_None_iff Map_has_def Map_delete_absent
           split: option.splits)

lemma deletePrefix_step_maxBytes [simp]: "maxBytes (deletePrefix_step pre c key) = maxBytes c"
  by (simp add: deletePrefix_step_def split: option.splits)

lemma deletePrefix_fold:
  "cache_inv c \<Longrightarrow>
   cache_inv (foldl (deletePrefix_step pre) c ks) \<and>
   maxBytes (foldl (deletePrefix_step pre) c ks) = maxBytes c \<and>
   map_kv (foldl (deletePrefix_step pre) c ks) =
     filter (\<lambda>p. \<not> (startsWith (fst p) pre \<and> fst p \<in> set ks)) (map_kv c)"
proof (induction ks arbitrary: c)
  case Nil
  then show ?case by simp
next
  case (Cons key ks)
  let ?c' = "deletePrefix_step pre c key"
  have i: "cache_inv ?c'" using Cons.prems by (rule deletePrefix_step_inv)
  show ?case using Cons.IH[OF i]
    by (auto simp: deletePrefix_step_map Map_delete_def intro: filter_cong)
qed

lemma deletePrefix_map:
  "cache_inv c \<Longrightarrow>
   map_kv (ChunkCache_deletePrefix c pre) = filter (\<lambda>p. \<not> startsWith (fst p) pre) (map_kv c)"
  using deletePrefix_fold[of c pre "Map_keys (map_kv c)"]
  by (auto simp: ChunkCache_deletePrefix_def Map_keys_def intro: filter_cong)

lemma deletePrefix_inv: "cache_inv c \<Longrightarrow> cache_inv (ChunkCache_deletePrefix c pre)"
  using deletePrefix_fold[of c pre "Map_keys (map_kv c)"]
  by (simp add: ChunkCache_deletePrefix_def)

lemma deletePrefix_maxBytes: "cache_inv c \<Longrightarrow> maxBytes (ChunkCache_deletePrefix c pre) = maxBytes c"
  using deletePrefix_fold[of c pre "Map_keys (map_kv c)"]
  by (simp add: ChunkCache_deletePrefix_def)

lemma deletePrefix_usedBytes:
  assumes "cache_inv c"
  shows "usedBytes (ChunkCache_deletePrefix c pre) \<le> usedBytes c"
proof -
  have "usedBytes (ChunkCache_deletePrefix c pre) = bytes_of (map_kv (ChunkCache_deletePrefix c pre))"
    using deletePrefix_inv[OF assms] by (simp add: cache_inv_def)
  also have "\<dots> \<le> bytes_of (map_kv c)"
    by (simp add: deletePrefix_map[OF assms] bytes_of_filter_le)
  finally show ?thesis using assms by (simp add: cache_inv_def)
qed

lemma new_within_budget: "0 \<le> mb \<Longrightarrow> within_budget (ChunkCache_new mb)"
  by (simp add: within_budget_def cache_inv_def ChunkCache_new_def)

lemma clear_within_budget: "0 \<le> maxBytes c \<Longrightarrow> within_budget (ChunkCache_clear c)"
  by (simp add: within_budget_def cache_inv_def ChunkCache_clear_def)

lemma used_nonneg: "cache_inv c \<Longrightarrow> 0 \<le> usedBytes c"
  by (simp add: cache_inv_def bytes_of_nonneg)

lemma apply_within_budget:
  assumes "within_budget c" and "fits (maxBytes c) op"
  shows "within_budget (apply_cache_op c op) \<and> maxBytes (apply_cache_op c op) = maxBytes c"
proof (cases op)
  case (Insert k b)
  then show ?thesis using assms by (simp add: within_budget_def set_inv set_budget)
next
  case (Get k)
  then show ?thesis using assms by (simp add: within_budget_def get_inv)
next
  case (Has k)
  then show ?thesis using assms by simp
next
  case (DeletePrefix p)
  then show ?thesis using assms deletePrefix_usedBytes[of c p]
    by (simp add: within_budget_def deletePrefix_inv deletePrefix_maxBytes)
next
  case Clear
  have "0 \<le> maxBytes c" using assms used_nonneg[of c] by (simp add: within_budget_def)
  then show ?thesis using Clear clear_within_budget[of c] by (simp add: ChunkCache_clear_def)
qed

lemma run_within_budget:
  "within_budget c \<Longrightarrow> \<forall>op\<in>set ops. fits (maxBytes c) op \<Longrightarrow>
   within_budget (run_cache_ops c ops) \<and> maxBytes (run_cache_ops c ops) = maxBytes c"
proof (induction ops arbitrary: c)
  case Nil
  then show ?case by (simp add: run_cache_ops_def)
next
  case (Cons op ops)
  have s: "within_budget (apply_cache_op c op) \<and> maxBytes (apply_cache_op c op) = maxBytes c"
    using Cons.prems by (intro apply_within_budget) auto
  then show ?case using Cons.IH[of "apply_cache_op c op"] Cons.prems(2)
    by (simp add: run_cache_ops_def)
qed

text \<open>
  Claim C1, as the code has it. Starting from the cache the program creates
  (\<open>new ChunkCache(CACHE_MAX_BYTES)\<close>), after every prefix of every sequence of insert,
  get, has, deletePrefix and clear operations in which no inserted buffer is longer than
  the budget, \<open>usedBytes\<close> is at most \<open>CACHE_MAX_BYTES\<close>.
\<close>

theorem budget_invariant:
  assumes "\<forall>op\<in>set ops. fits CACHE_MAX_BYTES op"
  shows "usedBytes (run_cache_ops chunkCache (take n ops)) \<le> CACHE_MAX_BYTES"
proof -
  have w: "within_budget chunkCache"
    unfolding chunkCache_def by (rule new_within_budget) (simp add: CACHE_MAX_BYTES_def)
  have m: "maxBytes chunkCache = CACHE_MAX_BYTES" by (simp add: chunkCache_def ChunkCache_new_def)
  have "\<forall>op\<in>set (take n ops). fits (maxBytes chunkCache) op"
    using assms m by (auto dest: in_set_takeD)
  from run_within_budget[OF w this] m show ?thesis by (simp add: within_budget_def)
qed

theorem budget_invariant_witness:
  "usedBytes (run_cache_ops chunkCache
      (take 3 [Insert ''v:0'' [1, 2, 3], Get ''v:0'', Insert ''w:0'' [4], DeletePrefix ''v:'', Clear]))
     \<le> CACHE_MAX_BYTES"
  using budget_invariant[of "[Insert ''v:0'' [1, 2, 3], Get ''v:0'', Insert ''w:0'' [4], DeletePrefix ''v:'', Clear]" 3]
  by (simp add: CACHE_MAX_BYTES_def)

text \<open>
  The claim as stated also covers a buffer longer than the budget and says that it is
  rejected. \<open>set\<close> has no such test: the eviction loop stops on the empty map and the
  buffer is stored, so \<open>usedBytes\<close> is one byte above \<open>CACHE_MAX_BYTES\<close> here.
\<close>

theorem oversized_insert_counterexample:
  "usedBytes (run_cache_ops chunkCache [Insert ''v:0'' (replicate 734003201 0)]) = 734003201
   \<and> CACHE_MAX_BYTES = 734003200
   \<and> ChunkCache_has (run_cache_ops chunkCache [Insert ''v:0'' (replicate 734003201 0)]) ''v:0''"
  by (simp add: run_cache_ops_def chunkCache_def ChunkCache_new_def ChunkCache_set_def reclaim_def Map_get_def
        evict.simps Map_size_def Map_set_def Map_has_def ChunkCache_has_def CACHE_MAX_BYTES_def)

lemma run_snoc: "run_cache_ops c (ops @ [op]) = apply_cache_op (run_cache_ops c ops) op"
  by (simp add: run_cache_ops_def)

lemma run_inserts_inv: "cache_inv c \<Longrightarrow> cache_inv (run_cache_ops c (inserts kbs))"
proof (induction kbs rule: rev_induct)
  case Nil
  then show ?case by (simp add: run_cache_ops_def inserts_def)
next
  case (snoc kb kbs)
  then show ?case by (cases kb) (simp add: inserts_def run_snoc set_inv)
qed

lemma evict_least:
  assumes "cache_inv c"
  shows "\<exists>j\<le>length (map_kv c).
           map_kv (evict c n) = drop j (map_kv c)
         \<and> usedBytes (evict c n) = bytes_of (drop j (map_kv c))
         \<and> (bytes_of (drop j (map_kv c)) + n \<le> maxBytes c \<or> j = length (map_kv c))
         \<and> (\<forall>i<j. bytes_of (drop i (map_kv c)) + n > maxBytes c)"
  using assms
proof (induction c n rule: evict.induct)
  case (1 c n)
  have ub: "usedBytes c = bytes_of (map_kv c)" using "1.prems" by (simp add: cache_inv_def)
  show ?case
  proof (cases "usedBytes c + n > maxBytes c \<and> Map_size (map_kv c) > 0")
    case False
    then have e: "evict c n = c" by (subst evict.simps) auto
    from False have "bytes_of (map_kv c) + n \<le> maxBytes c \<or> 0 = length (map_kv c)"
      using ub by (auto simp: Map_size_def)
    then show ?thesis unfolding e using ub by (intro exI[of _ 0]) simp
  next
    case True
    then obtain oldest b rest where m: "map_kv c = (oldest, b) # rest"
      by (cases "map_kv c") (auto simp: Map_size_def)
    let ?c' = "c\<lparr> usedBytes := usedBytes c - int (length b), map_kv := Map_delete oldest (map_kv c) \<rparr>"
    from "1.prems" m have "oldest \<notin> fst ` set rest" by (auto simp: cache_inv_def)
    then have f: "filter (\<lambda>p. fst p \<noteq> oldest) rest = rest" by (auto simp: filter_id_conv)
    have r: "map_kv ?c' = rest" using m f by (simp add: Map_delete_def)
    have inv': "cache_inv ?c'" using "1.prems" m f by (simp add: cache_inv_def Map_delete_def)
    from "1.IH"[OF True m refl inv'] obtain j where
      j: "j \<le> length rest" "map_kv (evict ?c' n) = drop j rest"
         "usedBytes (evict ?c' n) = bytes_of (drop j rest)"
         "bytes_of (drop j rest) + n \<le> maxBytes c \<or> j = length rest"
         "\<forall>i<j. bytes_of (drop i rest) + n > maxBytes c"
      unfolding r by auto
    have e: "evict c n = evict ?c' n" using True m by (subst evict.simps) simp
    have big: "bytes_of (map_kv c) + n > maxBytes c" using True ub by simp
    have all: "\<forall>i<Suc j. bytes_of (drop i (map_kv c)) + n > maxBytes c"
    proof (intro allI impI)
      fix i assume "i < Suc j"
      then show "bytes_of (drop i (map_kv c)) + n > maxBytes c"
        using big j(5) m by (cases i) auto
    qed
    show ?thesis
      unfolding e using j(1-4) all m by (intro exI[of _ "Suc j"]) simp
  qed
qed

lemma set_least:
  assumes "cache_inv c"
  shows "\<exists>j\<le>length (Map_delete k (map_kv c)).
           map_kv (ChunkCache_set c k b) = drop j (Map_delete k (map_kv c)) @ [(k, b)]
         \<and> (bytes_of (drop j (Map_delete k (map_kv c))) + int (length b) \<le> maxBytes c
              \<or> j = length (Map_delete k (map_kv c)))
         \<and> (\<forall>i<j. bytes_of (drop i (Map_delete k (map_kv c))) + int (length b) > maxBytes c)"
proof -
  let ?c1 = "reclaim c k"
  let ?c2 = "evict ?c1 (int (length b))"
  have i1: "cache_inv ?c1" using assms by (rule reclaim_inv)
  have nh: "\<not> Map_has (map_kv ?c2) k"
    using evict_not_has[OF i1] by (simp add: reclaim_map)
  from evict_least[OF i1, of "int (length b)"] obtain j where
    j: "j \<le> length (Map_delete k (map_kv c))"
       "map_kv ?c2 = drop j (Map_delete k (map_kv c))"
       "bytes_of (drop j (Map_delete k (map_kv c))) + int (length b) \<le> maxBytes c
          \<or> j = length (Map_delete k (map_kv c))"
       "\<forall>i<j. bytes_of (drop i (Map_delete k (map_kv c))) + int (length b) > maxBytes c"
    unfolding reclaim_map reclaim_maxBytes by auto
  have "map_kv (ChunkCache_set c k b) = drop j (Map_delete k (map_kv c)) @ [(k, b)]"
    using nh j(2) by (simp add: ChunkCache_set_def Let_def Map_set_fresh)
  then show ?thesis using j(1,3,4) by blast
qed

lemma inserts_least:
  "distinct (map fst kbs) \<Longrightarrow>
   \<exists>j. map_kv (run_cache_ops (ChunkCache_new mb) (inserts kbs)) = drop j kbs
      \<and> (kbs \<noteq> [] \<longrightarrow> j < length kbs)
      \<and> (bytes_of (drop j kbs) \<le> mb \<or> Suc j = length kbs \<or> kbs = [])
      \<and> (\<forall>i<j. bytes_of (drop i kbs) > mb)"
proof (induction kbs rule: rev_induct)
  case Nil
  show ?case by (intro exI[of _ 0]) (simp add: run_cache_ops_def inserts_def ChunkCache_new_def)
next
  case (snoc kb kbs)
  obtain k b where kb: "kb = (k, b)" by (cases kb)
  let ?c = "run_cache_ops (ChunkCache_new mb) (inserts kbs)"
  from snoc obtain j where j: "map_kv ?c = drop j kbs"
    and jl: "kbs \<noteq> [] \<longrightarrow> j < length kbs"
    and jb: "\<forall>i<j. bytes_of (drop i kbs) > mb" by auto
  have jle: "j \<le> length kbs \<or> drop j kbs = []" by auto
  define j0 where "j0 = min j (length kbs)"
  have j0: "map_kv ?c = drop j0 kbs" "j0 \<le> length kbs" "\<forall>i<j0. bytes_of (drop i kbs) > mb"
    using j jb by (auto simp: j0_def min_def)
  have inv: "cache_inv ?c"
    by (rule run_inserts_inv) (simp add: cache_inv_def ChunkCache_new_def)
  have mx: "maxBytes ?c = mb"
  proof -
    have "\<And>c. maxBytes (run_cache_ops c (inserts kbs)) = maxBytes c"
    proof (induction kbs rule: rev_induct)
      case Nil
      then show ?case by (simp add: run_cache_ops_def inserts_def)
    next
      case (snoc x xs)
      then show ?case by (cases x) (simp add: inserts_def run_snoc)
    qed
    then show ?thesis by (simp add: ChunkCache_new_def)
  qed
  have "k \<notin> fst ` set (drop j0 kbs)" using snoc.prems kb by (auto dest: in_set_dropD)
  then have d: "Map_delete k (map_kv ?c) = drop j0 kbs" using j0(1) by (simp add: Map_delete_absent)
  from set_least[OF inv, of k b] obtain i where
    i: "i \<le> length (drop j0 kbs)"
       "map_kv (ChunkCache_set ?c k b) = drop i (drop j0 kbs) @ [(k, b)]"
       "bytes_of (drop i (drop j0 kbs)) + int (length b) \<le> mb \<or> i = length (drop j0 kbs)"
       "\<forall>i'<i. bytes_of (drop i' (drop j0 kbs)) + int (length b) > mb"
    unfolding d mx by auto
  define J where "J = i + j0"
  have Jl: "J \<le> length kbs" using i(1) j0(2) by (simp add: J_def)
  have dr: "\<And>n. n \<le> length kbs \<Longrightarrow> drop n (kbs @ [kb]) = drop n kbs @ [kb]" by simp
  have r: "run_cache_ops (ChunkCache_new mb) (inserts (kbs @ [kb])) = ChunkCache_set ?c k b"
    by (simp add: inserts_def run_snoc kb)
  have a: "map_kv (ChunkCache_set ?c k b) = drop J (kbs @ [kb])"
    using i(2) Jl by (simp add: dr J_def kb add.commute)
  have b: "J < length (kbs @ [kb])" using Jl by simp
  have c: "bytes_of (drop J (kbs @ [kb])) \<le> mb \<or> Suc J = length (kbs @ [kb])"
  proof -
    have "drop i (drop j0 kbs) = drop J kbs" by (simp add: J_def add.commute)
    then have "bytes_of (drop J kbs) + int (length b) \<le> mb \<or> J = length kbs"
      using i(3) i(1) j0(2) by (auto simp: J_def)
    then show ?thesis using Jl by (auto simp: dr kb)
  qed
  have e: "\<forall>n<J. bytes_of (drop n (kbs @ [kb])) > mb"
  proof (intro allI impI)
    fix n assume n: "n < J"
    have nl: "n \<le> length kbs" using n Jl by simp
    show "bytes_of (drop n (kbs @ [kb])) > mb"
    proof (cases "n < j0")
      case True
      then have "bytes_of (drop n kbs) > mb" using j0(3) by simp
      then show ?thesis using nl by (simp add: dr kb)
    next
      case False
      then have "n - j0 < i" using n by (simp add: J_def)
      then have "bytes_of (drop (n - j0) (drop j0 kbs)) + int (length b) > mb" using i(4) by simp
      moreover have "drop (n - j0) (drop j0 kbs) = drop n kbs" using False by simp
      ultimately show ?thesis using nl by (simp add: dr kb)
    qed
  qed
  show ?case unfolding r using a b c e by (intro exI[of _ J]) simp
qed

lemma touched_survives:
  assumes inv: "cache_inv c" and hit: "Map_get (map_kv c) k = Some b" and ne: "k' \<noteq> k"
  shows "Map_has (map_kv (ChunkCache_set (snd (ChunkCache_get c k)) k' b')) k
         \<or> map_kv (ChunkCache_set (snd (ChunkCache_get c k)) k' b') = [(k', b')]"
proof -
  let ?c1 = "snd (ChunkCache_get c k)"
  have m1: "map_kv ?c1 = Map_delete k (map_kv c) @ [(k, b)]"
    using get_result[OF inv hit] by simp
  have i1: "cache_inv ?c1" using inv by (rule get_inv)
  have d: "Map_delete k' (map_kv ?c1) = Map_delete k' (Map_delete k (map_kv c)) @ [(k, b)]"
    using ne by (simp add: m1 Map_delete_def)
  from set_least[OF i1, of k' b'] obtain j where
    j: "j \<le> length (Map_delete k' (map_kv ?c1))"
       "map_kv (ChunkCache_set ?c1 k' b') = drop j (Map_delete k' (map_kv ?c1)) @ [(k', b')]"
    by auto
  show ?thesis
  proof (cases "j = length (Map_delete k' (map_kv ?c1))")
    case True
    then show ?thesis using j(2) by simp
  next
    case False
    then have "j \<le> length (Map_delete k' (Map_delete k (map_kv c)))" using j(1) d by simp
    then have "(k, b) \<in> set (drop j (Map_delete k' (map_kv ?c1)))" unfolding d by simp
    then show ?thesis unfolding j(2) by (force simp: Map_has_def)
  qed
qed

text \<open>
  Claim C6. Inserting pairwise different keys into a new cache leaves the insertion
  sequence without its first \<open>j\<close> pairs, where a pair is gone exactly when the pairs from
  it on do not fit the budget together (the pair inserted last always stays): nothing is
  evicted without byte pressure, and the keys go in the order of their insertion. A \<open>get\<close>
  that hits returns the stored bytes and moves the key to the end of the order. Every
  \<open>set\<close> takes the key at hand out, then evicts from the front of the order the least
  number of keys after which the new buffer fits (all of them when it never fits), and
  puts the new pair at the end. So after a \<open>get\<close> of \<open>k\<close>, a \<open>set\<close> of another key
  evicts \<open>k\<close> only when it evicts every other key as well.
\<close>

theorem lru_order:
  "(distinct (map fst kbs) \<longrightarrow>
      (\<exists>j. map_kv (run_cache_ops (ChunkCache_new mb) (inserts kbs)) = drop j kbs
          \<and> (kbs \<noteq> [] \<longrightarrow> j < length kbs)
          \<and> (bytes_of (drop j kbs) \<le> mb \<or> Suc j = length kbs \<or> kbs = [])
          \<and> (\<forall>i<j. bytes_of (drop i kbs) > mb)))
   \<and> (cache_inv c \<and> Map_get (map_kv c) k = Some b \<longrightarrow>
        ChunkCache_get c k = (Some b, c\<lparr> map_kv := Map_delete k (map_kv c) @ [(k, b)] \<rparr>))
   \<and> (cache_inv c \<longrightarrow>
        (\<exists>j\<le>length (Map_delete k' (map_kv c)).
            map_kv (ChunkCache_set c k' b') = drop j (Map_delete k' (map_kv c)) @ [(k', b')]
          \<and> (bytes_of (drop j (Map_delete k' (map_kv c))) + int (length b') \<le> maxBytes c
               \<or> j = length (Map_delete k' (map_kv c)))
          \<and> (\<forall>i<j. bytes_of (drop i (Map_delete k' (map_kv c))) + int (length b') > maxBytes c)))
   \<and> (cache_inv c \<and> Map_get (map_kv c) k = Some b \<and> k' \<noteq> k \<longrightarrow>
        Map_has (map_kv (ChunkCache_set (snd (ChunkCache_get c k)) k' b')) k
        \<or> map_kv (ChunkCache_set (snd (ChunkCache_get c k)) k' b') = [(k', b')])"
  using inserts_least[of kbs mb] get_result[of c k b] set_least[of c k' b']
    touched_survives[of c k b k' b']
  by blast

theorem lru_order_witness:
  "distinct (map fst demo_inserts)
   \<and> map_kv (run_cache_ops (ChunkCache_new 4) (inserts demo_inserts))
       = [(''b'', [3, 4]), (''c'', [5, 6])]
   \<and> cache_inv demo_lru
   \<and> ChunkCache_get demo_lru ''b''
       = (Some [3, 4], demo_lru\<lparr> map_kv := [(''c'', [5, 6]), (''b'', [3, 4])] \<rparr>)
   \<and> map_kv (ChunkCache_set (snd (ChunkCache_get demo_lru ''b'')) ''d'' [7, 8])
       = [(''b'', [3, 4]), (''d'', [7, 8])]
   \<and> Map_has (map_kv (ChunkCache_set (snd (ChunkCache_get demo_lru ''b'')) ''d'' [7, 8])) ''b''"
proof -
  let ?c1 = "snd (ChunkCache_get demo_lru ''b'')"
  note t = lru_order[where kbs = demo_inserts and mb = 4 and c = demo_lru and k = "''b''"
             and b = "[3, 4]" and k' = "''d''" and b' = "[7, 8]"]
  note u = lru_order[where kbs = demo_inserts and mb = 4 and c = ?c1 and k = "''b''"
             and b = "[3, 4]" and k' = "''d''" and b' = "[7, 8]"]
  have d: "distinct (map fst demo_inserts)" by (simp add: demo_inserts_def)
  have inv: "cache_inv demo_lru" by (simp add: cache_inv_def demo_lru_def)
  have hit: "Map_get (map_kv demo_lru) ''b'' = Some [3, 4]" by (simp add: demo_lru_def Map_get_def)
  note t1 = t[THEN conjunct1, rule_format, OF d]
  from t1 obtain j where
    j: "map_kv (run_cache_ops (ChunkCache_new 4) (inserts demo_inserts)) = drop j demo_inserts"
       "bytes_of (drop j demo_inserts) \<le> 4 \<or> Suc j = length demo_inserts \<or> demo_inserts = []"
       "\<forall>i<j. bytes_of (drop i demo_inserts) > 4"
    by blast
  have "\<not> 1 < j" using j(3)[rule_format, of 1] by (auto simp: demo_inserts_def)
  moreover have "j \<noteq> 0"
  proof
    assume "j = 0"
    with j(2) show False by (simp add: demo_inserts_def)
  qed
  ultimately have "j = 1" by simp
  then have a: "map_kv (run_cache_ops (ChunkCache_new 4) (inserts demo_inserts))
                 = [(''b'', [3, 4]), (''c'', [5, 6])]"
    using j(1) by (simp add: demo_inserts_def)
  have g: "ChunkCache_get demo_lru ''b''
            = (Some [3, 4], demo_lru\<lparr> map_kv := [(''c'', [5, 6]), (''b'', [3, 4])] \<rparr>)"
    using t[THEN conjunct2, THEN conjunct1, rule_format, OF conjI[OF inv hit]]
    by (simp add: demo_lru_def Map_delete_def)
  have c1: "?c1 = demo_lru\<lparr> map_kv := [(''c'', [5, 6]), (''b'', [3, 4])] \<rparr>"
    unfolding g by simp
  have inv1: "cache_inv ?c1" unfolding c1 by (simp add: cache_inv_def demo_lru_def)
  have m1: "Map_delete ''d'' (map_kv ?c1) = [(''c'', [5, 6]), (''b'', [3, 4])]"
    unfolding c1 by (simp add: Map_delete_def)
  have mx: "maxBytes ?c1 = 4" unfolding c1 by (simp add: demo_lru_def)
  note u3 = u[THEN conjunct2, THEN conjunct2, THEN conjunct1, rule_format, OF inv1,
              unfolded m1 mx]
  from u3 obtain i where
    i: "i \<le> length [(''c'', [5, 6]), (''b'', [3, 4 :: 8 word])]"
       "map_kv (ChunkCache_set ?c1 ''d'' [7, 8]) = drop i [(''c'', [5, 6]), (''b'', [3, 4])] @ [(''d'', [7, 8])]"
       "bytes_of (drop i [(''c'', [5, 6]), (''b'', [3, 4 :: 8 word])]) + int (length [7, 8 :: 8 word]) \<le> 4
        \<or> i = length [(''c'', [5, 6]), (''b'', [3, 4 :: 8 word])]"
       "\<forall>n<i. bytes_of (drop n [(''c'', [5, 6]), (''b'', [3, 4 :: 8 word])]) + int (length [7, 8 :: 8 word]) > 4"
    by blast
  have "\<not> 1 < i" using i(4)[rule_format, of 1] by auto
  moreover have "i \<noteq> 0"
  proof
    assume "i = 0"
    with i(3) show False by simp
  qed
  ultimately have "i = 1" by simp
  then have s: "map_kv (ChunkCache_set ?c1 ''d'' [7, 8]) = [(''b'', [3, 4]), (''d'', [7, 8])]"
    using i(2) by simp
  have h: "Map_has (map_kv (ChunkCache_set ?c1 ''d'' [7, 8])) ''b''"
    unfolding s by (simp add: Map_has_def)
  show ?thesis using d a inv g s h by simp
qed

section \<open>Properties of numbers and their text\<close>

lemma bit_length_0 [simp]: "bit_length 0 = 0"
  by (simp add: bit_length.simps)

lemma bit_length_pos: "n \<noteq> 0 \<Longrightarrow> bit_length n = Suc (bit_length (n div 2))"
  by (subst bit_length.simps) simp

lemma bit_length_less: "n < 2 ^ k \<Longrightarrow> bit_length n \<le> k"
proof (induction k arbitrary: n)
  case 0
  then show ?case by simp
next
  case (Suc k)
  show ?case
  proof (cases "n = 0")
    case True
    then show ?thesis by simp
  next
    case False
    have "n div 2 < 2 ^ k" using Suc.prems by simp
    then have "bit_length (n div 2) \<le> k" by (rule Suc.IH)
    then show ?thesis using False by (simp add: bit_length_pos)
  qed
qed

lemma bit_length_ge: "2 ^ k \<le> n \<Longrightarrow> k < bit_length n"
proof (induction k arbitrary: n)
  case 0
  then have "n \<noteq> 0" by auto
  then show ?case by (simp add: bit_length_pos)
next
  case (Suc k)
  have "0 < (2::nat) ^ Suc k" by simp
  then have n: "n \<noteq> 0" using Suc.prems by linarith
  have "2 ^ k \<le> n div 2" using Suc.prems by simp
  then have "k < bit_length (n div 2)" by (rule Suc.IH)
  then show ?case using n by (simp add: bit_length_pos)
qed

lemma bit_length_eq: "2 ^ k \<le> n \<Longrightarrow> n < 2 ^ Suc k \<Longrightarrow> bit_length n = Suc k"
  using bit_length_ge[of k n] bit_length_less[of n "Suc k"] by simp

lemma bit_length_lower: "n \<noteq> 0 \<Longrightarrow> 2 ^ (bit_length n - 1) \<le> n"
proof (rule ccontr)
  assume n: "n \<noteq> 0" and "\<not> 2 ^ (bit_length n - 1) \<le> n"
  then have "bit_length n \<le> bit_length n - 1" by (intro bit_length_less) simp
  moreover have "0 < bit_length n" using n by (simp add: bit_length_pos)
  ultimately show False by simp
qed

lemma round_below:
  assumes "n < 2 ^ 53"
  shows "round_to_double n = Some n"
proof -
  have "bit_length n \<le> 53" using assms by (rule bit_length_less)
  then have e: "bit_length n - 53 = 0" by simp
  have "n < 2 ^ 1024"
    using assms power_strict_increasing[of 53 1024 "2::nat"] by simp
  then show ?thesis by (simp add: round_to_double_def e Let_def)
qed

lemma round_at: "round_to_double (2 ^ 53) = Some (2 ^ 53)"
proof -
  have b: "bit_length (2 ^ 53) = 54"
    using bit_length_eq[of 53 "2 ^ 53"] by simp
  have "(2::nat) ^ 53 < 2 ^ 1024" by (rule power_strict_increasing) simp_all
  then show ?thesis unfolding round_to_double_def Let_def b by simp
qed

lemma round_small: "n \<le> 2 ^ 53 \<Longrightarrow> round_to_double n = Some n"
  using round_below[of n] round_at by (cases "n = 2 ^ 53") auto

lemma round_large:
  assumes n: "2 ^ 53 < n" and r: "round_to_double n = Some v"
  shows "2 ^ 53 \<le> v \<and> (v = 2 ^ 53 \<longrightarrow> n = 2 ^ 53 + 1)"
proof -
  define b where "b = bit_length n"
  define e where "e = b - 53"
  define q where "q = n div 2 ^ e"
  define q' where "q' = (if 2 * (n mod 2 ^ e) > 2 ^ e \<or> (2 * (n mod 2 ^ e) = 2 ^ e \<and> odd q) then q + 1 else q)"
  have v: "v = q' * 2 ^ e"
    using r by (auto simp: round_to_double_def Let_def b_def e_def q_def q'_def split: if_splits)
  have b54: "53 < b" unfolding b_def using n by (intro bit_length_ge) simp
  then have e1: "1 \<le> e" and be: "b = e + 53" by (simp_all add: e_def)
  have n0: "n \<noteq> 0" using n by auto
  have "2 ^ (b - 1) \<le> n" unfolding b_def by (rule bit_length_lower[OF n0])
  then have "2 ^ (52 + e) \<le> n" by (simp add: be)
  then have "2 ^ 52 * 2 ^ e \<le> n" by (simp add: power_add)
  then have q52: "2 ^ 52 \<le> q"
    unfolding q_def by (simp add: less_eq_div_iff_mult_less_eq)
  have qq: "q \<le> q'" by (simp add: q'_def)
  have p1: "(2::nat) ^ 1 \<le> 2 ^ e" using e1 by (intro power_increasing) simp_all
  have "2 ^ 52 * 2 ^ 1 \<le> q' * 2 ^ e"
    using q52 qq p1 by (intro mult_mono) auto
  then have lower: "2 ^ 53 \<le> v" by (simp add: v)
  have "n = 2 ^ 53 + 1" if eq: "v = 2 ^ 53"
  proof -
    have e_eq: "e = 1"
    proof (rule ccontr)
      assume "e \<noteq> 1"
      then have "2 \<le> e" using e1 by simp
      then have "(2::nat) ^ 2 \<le> 2 ^ e" by (intro power_increasing) simp_all
      then have "2 ^ 52 * 2 ^ 2 \<le> q' * 2 ^ e" using q52 qq by (intro mult_mono) auto
      then show False using eq v by simp
    qed
    have q'_eq: "q' = 2 ^ 52" using eq v e_eq by simp
    then have q_eq: "q = 2 ^ 52" using q52 qq by simp
    have ev: "even q" by (simp add: q_eq)
    have nomore: "\<not> (2 * (n mod 2 ^ e) > 2 ^ e \<or> (2 * (n mod 2 ^ e) = 2 ^ e \<and> odd q))"
      using q'_eq q_eq by (auto simp: q'_def split: if_splits)
    have "n = q * 2 + n mod 2" using e_eq by (simp add: q_def)
    moreover have "n mod 2 \<le> 1" by simp
    ultimately have "n \<le> 2 ^ 53 + 1" using q_eq by simp
    then show ?thesis using n by simp
  qed
  then show ?thesis using lower by simp
qed

lemma to_double_small: "\<bar>i\<bar> \<le> 2 ^ 53 \<Longrightarrow> to_double i = Finite i"
proof -
  assume a: "\<bar>i\<bar> \<le> 2 ^ 53"
  have "nat \<bar>i\<bar> \<le> nat (2 ^ 53)" using a by (rule nat_mono)
  then have "nat \<bar>i\<bar> \<le> 2 ^ 53" by simp
  then have r: "round_to_double (nat \<bar>i\<bar>) = Some (nat \<bar>i\<bar>)" by (rule round_small)
  show ?thesis
  proof (cases "i < 0")
    case True
    then have "nat (- i) = nat \<bar>i\<bar>" by simp
    then show ?thesis using True r by (simp add: to_double_def)
  next
    case False
    then have "nat i = nat \<bar>i\<bar>" by simp
    then show ?thesis using False r by (simp add: to_double_def)
  qed
qed

lemma to_double_nonneg:
  assumes "0 \<le> i"
  shows "to_double i \<noteq> NegInfinity" and "to_double i = Finite d \<Longrightarrow> 0 \<le> d"
  using assms by (auto simp: to_double_def split: option.splits)


lemma show_nat_digit: "n < 10 \<Longrightarrow> show_nat n = [digit_char n]"
  by (subst show_nat.simps) simp

lemma show_nat_more: "\<not> n < 10 \<Longrightarrow> show_nat n = show_nat (n div 10) @ [digit_char (n mod 10)]"
  by (subst show_nat.simps) simp

lemma length_show_nat_pos: "0 < length (show_nat n)"
  by (cases "n < 10") (simp_all add: show_nat_digit show_nat_more)

lemma length_show_nat: "n < 10 ^ Suc k \<Longrightarrow> length (show_nat n) \<le> Suc k"
proof (induction k arbitrary: n)
  case 0
  then show ?case by (simp add: show_nat_digit)
next
  case (Suc k)
  show ?case
  proof (cases "n < 10")
    case True
    then show ?thesis by (simp add: show_nat_digit)
  next
    case False
    have "n div 10 < 10 ^ Suc k" using Suc.prems by simp
    then have "length (show_nat (n div 10)) \<le> Suc k" by (rule Suc.IH)
    then show ?thesis using False by (simp add: show_nat_more)
  qed
qed

lemma above_safe:
  assumes x: "x \<le> 2 ^ 53" and h: "x < h" and r: "round_to_double h = Some x"
  shows "h = 2 ^ 53 + 1 \<and> x = 2 ^ 53"
proof -
  have big: "2 ^ 53 < h"
  proof (rule ccontr)
    assume "\<not> 2 ^ 53 < h"
    then have "round_to_double h = Some h" by (intro round_small) simp
    with r h show False by simp
  qed
  from round_large[OF big r] x show ?thesis by auto
qed

lemma candidate_safe:
  assumes x: "x \<le> 2 ^ 53" and c: "candidate x k = Some v"
  shows "v = x"
proof -
  define j where "j = length (show_nat x) - k"
  define p :: nat where "p = 10 ^ j"
  define lo where "lo = (x div p) * p"
  define hi where "hi = lo + p"
  have p0: "0 < p" by (simp add: p_def)
  have lo_le: "lo \<le> x" by (simp add: lo_def)
  have x_lt: "x < hi" unfolding hi_def lo_def using p0
    by (metis add.commute div_mult_mod_eq add_less_cancel_left mod_less_divisor mult.commute)
  have A: "lo = x" if "round_to_double lo = Some x"
  proof -
    have "round_to_double lo = Some lo" using lo_le x by (intro round_small) simp
    with that show ?thesis by simp
  qed
  have B: "p = 1 \<and> lo = x" if "round_to_double hi = Some x"
  proof -
    from above_safe[OF x x_lt that] have hi_eq: "hi = 2 ^ 53 + 1" and x_eq: "x = 2 ^ 53" by simp_all
    have dv: "p dvd hi" by (simp add: hi_def lo_def)
    have "j = 0"
    proof (rule ccontr)
      assume "j \<noteq> 0"
      then obtain i where "j = Suc i" by (cases j) auto
      then have "10 dvd p" by (simp add: p_def)
      then have "(10::nat) dvd 2 ^ 53 + 1" using dv hi_eq by (metis dvd_trans)
      then show False by simp
    qed
    then have "p = 1" by (simp add: p_def)
    then show ?thesis using hi_eq x_eq by (simp add: hi_def)
  qed
  have rx: "round_to_double x = Some x" using x by (rule round_small)
  have c': "(if round_to_double lo = Some x \<and> round_to_double hi = Some x then
               Some (if x - lo < hi - x \<or> (x - lo = hi - x \<and> even (x div p)) then lo else hi)
             else if round_to_double lo = Some x then Some lo
             else if round_to_double hi = Some x then Some hi
             else None) = Some v"
    using c unfolding candidate_def Let_def hi_def lo_def p_def j_def .
  show ?thesis
  proof (cases "round_to_double hi = Some x")
    case True
    from B[OF True] have p1: "p = 1" and l: "lo = x" by simp_all
    have "hi = x + 1" by (simp add: hi_def l p1)
    then show ?thesis using c' True l rx by simp
  next
    case False
    then show ?thesis using c' A by (auto split: if_splits)
  qed
qed

lemma candidate_at_length:
  assumes x: "x \<le> 2 ^ 53"
  shows "candidate x (length (show_nat x)) = Some x"
proof -
  have rx: "round_to_double x = Some x" using x by (rule round_small)
  show ?thesis by (simp add: candidate_def Let_def rx)
qed

lemma safe_digits:
  assumes x: "x \<le> 2 ^ 53"
  shows "length (show_nat x) \<le> 16"
proof -
  have "(2::nat) ^ 53 < 10 ^ Suc 15" by simp
  then have "x < 10 ^ Suc 15" using x by linarith
  then show ?thesis using length_show_nat[of x 15] by simp
qed

lemma set_map_filter_Some:
  "set (List.map_filter f xs) = {y. \<exists>x\<in>set xs. f x = Some y}"
  by (induction xs) (auto simp: map_filter_simps split: option.splits)

lemma shortest_safe:
  assumes x: "x \<le> 2 ^ 53"
  shows "shortest_value x = x"
proof -
  let ?l = "List.map_filter (candidate x) [1..<18]"
  have s: "set ?l = {v. \<exists>k\<in>set [1..<18]. candidate x k = Some v}"
    by (rule set_map_filter_Some)
  have "length (show_nat x) \<in> set [1..<18]"
  proof -
    have "0 < length (show_nat x)" by (rule length_show_nat_pos)
    then have "1 \<le> length (show_nat x)" by linarith
    moreover have "length (show_nat x) < 18" using safe_digits[OF x] by linarith
    ultimately show ?thesis by simp
  qed
  then have "x \<in> set ?l" unfolding s using candidate_at_length[OF x] by blast
  moreover have "\<forall>v\<in>set ?l. v = x" unfolding s using candidate_safe[OF x] by blast
  ultimately show ?thesis
    by (cases ?l) (auto simp: shortest_value_def)
qed

lemma magnitude_text_safe: "n \<le> 2 ^ 53 \<Longrightarrow> magnitude_text n = show_nat n"
  using safe_digits[of n]
  by (simp add: magnitude_text_def round_small double_text_def shortest_safe Let_def)

lemma show_int_safe:
  assumes "\<bar>i\<bar> \<le> 2 ^ 53"
  shows "show_int i = (if i < 0 then CHR ''-'' # show_nat (nat (- i)) else show_nat (nat i))"
proof -
  have "nat \<bar>i\<bar> \<le> nat (2 ^ 53)" using assms by (rule nat_mono)
  then have n: "nat \<bar>i\<bar> \<le> 2 ^ 53" by simp
  show ?thesis
  proof (cases "i < 0")
    case True
    then have "nat (- i) = nat \<bar>i\<bar>" by simp
    then show ?thesis using True n by (simp add: show_int_def magnitude_text_safe)
  next
    case False
    then have "nat i = nat \<bar>i\<bar>" by simp
    then show ?thesis using False n by (simp add: show_int_def magnitude_text_safe)
  qed
qed

section \<open>Properties of the range server\<close>





lemma body_of_append [simp]: "body_of (xs @ ys) = body_of xs @ body_of ys"
  by (induction xs rule: body_of.induct) auto

lemma heads_of_append [simp]: "heads_of (xs @ ys) = heads_of xs @ heads_of ys"
  by (induction xs rule: heads_of.induct) auto

lemma heads_of_step:
  "serve_step e v dl te t bp f = Stop acts \<Longrightarrow> heads_of acts = []"
  "serve_step e v dl te t bp f = Continue acts bp' f' \<Longrightarrow> heads_of acts = []"
  by (auto simp: serve_step_def Let_def split: outcome.splits if_splits)

lemma heads_of_serve: "heads_of (serve e v dl te t bp f) = []"
proof (induction e v dl te t bp f rule: serve.induct)
  case (1 e v dl te t bp f)
  show ?case
  proof (cases "bp < te \<and> \<not> destroyed_at e t")
    case False
    then show ?thesis by (subst serve.simps) auto
  next
    case True
    show ?thesis
    proof (cases "serve_step e v dl te t bp f")
      case (Stop acts)
      then show ?thesis using True heads_of_step(1)[OF Stop] by (subst serve.simps) simp
    next
      case (Continue acts bp' f')
      then show ?thesis using True heads_of_step(2)[OF Continue] "1.IH"[OF True Continue]
        by (subst serve.simps) simp
    qed
  qed
qed



lemma dash_not_digit: "\<not> isDigit CHR ''-''" by (simp add: isDigit_def)

lemma takeWhile_digits: "all_digits ds \<Longrightarrow> takeWhile isDigit (ds @ CHR ''-'' # r) = ds"
  by (induction ds) (auto simp: all_digits_def dash_not_digit)

lemma dropWhile_digits: "all_digits ds \<Longrightarrow> dropWhile isDigit (ds @ CHR ''-'' # r) = CHR ''-'' # r"
  by (induction ds) (auto simp: all_digits_def dash_not_digit)

lemma takeWhile_all: "all_digits de \<Longrightarrow> takeWhile isDigit de = de"
  by (induction de) (auto simp: all_digits_def)

lemma match_range_wellformed:
  assumes "all_digits ds" "ds \<noteq> []" "all_digits de"
  shows "match_range (''bytes='' @ ds @ ''-'' @ de) = Some (ds, de)"
proof -
  have "match_here (''bytes='' @ ds @ ''-'' @ de) = Some (ds, de)"
    using assms by (simp add: match_here_def takeWhile_digits dropWhile_digits takeWhile_all)
  then show ?thesis by simp
qed

lemma digits_value_nonneg_aux:
  "all_digits s \<Longrightarrow> 0 \<le> a \<Longrightarrow> 0 \<le> foldl (\<lambda>a c. 10 * a + digit_val c) a s"
proof (induction s arbitrary: a)
  case Nil then show ?case by simp
next
  case (Cons c s)
  from Cons.prems have "isDigit c" by (simp add: all_digits_def)
  then have "0 \<le> digit_val c" by (auto simp: isDigit_def digit_val_def)
  with Cons show ?case by (simp add: all_digits_def)
qed

lemma digits_value_nonneg: "all_digits s \<Longrightarrow> 0 \<le> digits_value s"
  by (simp add: digits_value_def digits_value_nonneg_aux)


lemma parseInt_not_negative: "all_digits s \<Longrightarrow> parseInt s \<noteq> NegInfinity"
  using to_double_nonneg(1)[OF digits_value_nonneg] by (simp add: parseInt_def)

lemma parseInt_safe:
  "all_digits s \<Longrightarrow> digits_value s \<le> 2 ^ 53 \<Longrightarrow> parseInt s = Finite (digits_value s)"
  using digits_value_nonneg[of s] by (simp add: parseInt_def to_double_small)

text \<open>A start beyond the safe integers is rounded, but not below \<open>2^53\<close>.\<close>
lemma parseInt_large:
  assumes "all_digits s" and "2 ^ 53 < digits_value s"
  shows "parseInt s = PosInfinity \<or> (\<exists>v. parseInt s = Finite v \<and> 2 ^ 53 \<le> v)"
proof -
  have "2 ^ 53 < nat (digits_value s)" using assms(2) by (simp add: zless_nat_eq_int_zless)
  then have "\<And>v. round_to_double (nat (digits_value s)) = Some v \<Longrightarrow> 2 ^ 53 \<le> v"
    using round_large by blast
  then have "\<And>v. round_to_double (nat (digits_value s)) = Some v \<Longrightarrow> (2::int) ^ 53 \<le> int v"
    by (metis of_nat_le_iff of_nat_numeral of_nat_power)
  then show ?thesis using assms(2)
    by (cases "round_to_double (nat (digits_value s))") (auto simp: parseInt_def to_double_def)
qed

lemma parseRange_wellformed:
  assumes "all_digits ds" "ds \<noteq> []" "all_digits de"
  shows "parseRange (Some (''bytes='' @ ds @ ''-'' @ de)) fs =
           (parseInt ds, if de = [] then fs - 1 else clamp_end (parseInt de) fs)"
  using match_range_wellformed[OF assms]
  by (auto simp: parseRange_def Let_def clamp_end_def simp del: match_range.simps)




lemma contentLength_beyond:
  assumes "0 \<le> fs" and "fs \<le> S" and "S < 2 ^ 53"
  shows "contentLength_of (fs - 1) (Finite S) = Finite (fs - S)"
proof -
  have a: "\<bar>fs - 1 - S\<bar> \<le> 2 ^ 53" using assms by simp
  have b: "\<bar>fs - S\<bar> \<le> 2 ^ 53" using assms by simp
  show ?thesis using assms(2) by (simp add: contentLength_of_def to_double_small[OF a] to_double_small[OF b])
qed

lemma body_of_seekBurst [simp]: "body_of (seekBurst c v dl fc tc) = []"
  by (simp add: seekBurst_def Let_def)

lemma heads_of_seekBurst [simp]: "heads_of (seekBurst c v dl fc tc) = []"
  by (simp add: seekBurst_def Let_def)

text \<open>The shape of the answer to a GET with a Range header on a registered stream.\<close>
lemma handler_ranged:
  assumes "match_url (req_url req) = Some videoId" "activeStreams videoId = Some info"
    "req_method req \<noteq> ''HEAD''" "truthy (req_range req)"
    "parseRange (req_range req) (fileSize info) = (Finite S, E)"
  shows "handler activeStreams e req =
           WriteHead 206
              [(''Content-Type'', mimeType info),
               (''Content-Length'', Number_toString (contentLength_of E (Finite S))),
               (''Content-Range'',
                  ''bytes '' @ show_int S @ ''-'' @ show_int E @ ''/'' @ show_int (fileSize info)),
               (''Accept-Ranges'', ''bytes''),
               (''Access-Control-Allow-Origin'', ''*''),
               (''Cache-Control'', ''no-cache'')] #
            (if req_socket req then [SetNoDelay] else []) @
            seekBurst (cache_at e 0) videoId (downloader info \<noteq> None) (S div CHUNK_SIZE)
              (ceil_div (fileSize info) CHUNK_SIZE) @
            serve e videoId (downloader info \<noteq> None) (E + 1) 1 S 0"
  using assms by (simp add: handler_def Let_def after_head_def Number_toString_def)



lemma serve_empty: "\<not> bp < te \<Longrightarrow> serve e v dl te t bp f = [End []]"
  by (subst serve.simps) simp

lemma handler_infinite:
  assumes "match_url (req_url req) = Some videoId" "activeStreams videoId = Some info"
    "req_method req \<noteq> ''HEAD''" "truthy (req_range req)"
    "parseRange (req_range req) (fileSize info) = (PosInfinity, E)"
  shows "handler activeStreams e req =
           WriteHead 206
              [(''Content-Type'', mimeType info),
               (''Content-Length'', ''-Infinity''),
               (''Content-Range'',
                  ''bytes Infinity-'' @ show_int E @ ''/'' @ show_int (fileSize info)),
               (''Accept-Ranges'', ''bytes''),
               (''Access-Control-Allow-Origin'', ''*''),
               (''Cache-Control'', ''no-cache'')] #
            (if req_socket req then [SetNoDelay] else []) @
            (if \<not> ChunkCache_has (cache_at e 0) (videoId @ '':Infinity'') \<and> downloader info \<noteq> None
             then [SeekTo PosInfinity] else []) @
            [End []]"
  using assms
  by (simp add: handler_def Let_def after_head_def Number_toString_def contentLength_of_def)

text \<open>
  Claim C10, as the code has it. The start of the range is not checked against the size.
  Take a stream whose size is from 0 to \<open>2^53\<close> and a GET with \<open>bytes=S-\<close>, the digits
  writing a number \<open>S\<close> not below the size. The answer has status 206 and no other, the
  body loop does not run, no byte is written and the response is ended. Content-Range is
  \<open>bytes S'-(fileSize-1)/fileSize\<close> and Content-Length is the text of
  \<open>(fileSize - 1) - S' + 1\<close>, where \<open>S'\<close> is what \<open>parseInt\<close> gives for the digits, the double
  nearest to \<open>S\<close>, and the arithmetic is that of doubles. When \<open>S\<close> is below \<open>2^53\<close>,
  \<open>S'\<close> is \<open>S\<close> and the length is \<open>fileSize - S \<le> 0\<close>.
\<close>

theorem start_beyond_size:
  assumes "match_url (req_url req) = Some videoId" and "activeStreams videoId = Some info"
    and "req_method req = ''GET''"
    and "req_range req = Some (''bytes='' @ ds @ ''-'')"
    and "all_digits ds" and "ds \<noteq> []"
    and "fileSize info \<le> digits_value ds"
    and "0 \<le> fileSize info" and "fileSize info \<le> 2 ^ 53"
  shows "\<exists>hs. heads_of (handler activeStreams e req) = [(206, hs)]
           \<and> map_of hs ''Content-Range''
               = Some (''bytes '' @ Number_toString (parseInt ds) @ ''-'' @
                       show_int (fileSize info - 1) @ ''/'' @ show_int (fileSize info))
           \<and> map_of hs ''Content-Length''
               = Some (Number_toString (contentLength_of (fileSize info - 1) (parseInt ds)))
           \<and> body_of (handler activeStreams e req) = []
           \<and> (\<exists>pre. handler activeStreams e req = pre @ [End []])
           \<and> (digits_value ds < 2 ^ 53 \<longrightarrow>
                parseInt ds = Finite (digits_value ds)
                \<and> contentLength_of (fileSize info - 1) (parseInt ds)
                    = Finite (fileSize info - digits_value ds)
                \<and> fileSize info - digits_value ds \<le> 0)"
proof -
  let ?fs = "fileSize info"
  let ?S = "digits_value ds"
  have "parseRange (Some (''bytes='' @ ds @ ''-'' @ [])) ?fs = (parseInt ds, ?fs - 1)"
    using assms(5,6) by (subst parseRange_wellformed) (simp_all add: all_digits_def)
  then have pr: "parseRange (req_range req) ?fs = (parseInt ds, ?fs - 1)"
    using assms by simp
  have tr: "truthy (req_range req)" using assms(4) by (simp add: truthy_def)
  have mth: "req_method req \<noteq> ''HEAD''" using assms(3) by simp
  have exact: "parseInt ds = Finite ?S
               \<and> contentLength_of (?fs - 1) (parseInt ds) = Finite (?fs - ?S) \<and> ?fs - ?S \<le> 0"
    if "?S < 2 ^ 53"
  proof -
    have p: "parseInt ds = Finite ?S" using that assms(5) by (intro parseInt_safe) simp_all
    show ?thesis unfolding p using that assms(7,8) by (simp add: contentLength_beyond)
  qed
  have cases: "parseInt ds = PosInfinity \<or> (\<exists>v. parseInt ds = Finite v \<and> ?fs \<le> v)"
  proof (cases "?S \<le> 2 ^ 53")
    case True
    then show ?thesis using parseInt_safe[OF assms(5) True] assms(7) by simp
  next
    case False
    then have "2 ^ 53 < ?S" by simp
    from parseInt_large[OF assms(5) this] assms(9) show ?thesis by force
  qed
  then show ?thesis
  proof
    assume inf: "parseInt ds = PosInfinity"
    note h = handler_infinite[where activeStreams = activeStreams and e = e,
               OF assms(1,2) mth tr pr[unfolded inf]]
    have ne: "\<not> ?S < 2 ^ 53" using exact inf by auto
    have "\<exists>pre. handler activeStreams e req = pre @ [End []]"
      unfolding h by (metis append_Cons append_assoc)
    then show ?thesis
      using ne unfolding h inf
      by (simp add: Number_toString_def contentLength_of_def)
  next
    assume "\<exists>v. parseInt ds = Finite v \<and> ?fs \<le> v"
    then obtain v where v: "parseInt ds = Finite v" and ge: "?fs \<le> v" by blast
    note h = handler_ranged[where activeStreams = activeStreams and e = e,
               OF assms(1,2) mth tr pr[unfolded v]]
    have sv: "serve e videoId (downloader info \<noteq> None) (?fs - 1 + 1) 1 v 0 = [End []]"
      using ge by (intro serve_empty) simp
    have "\<exists>pre. handler activeStreams e req = pre @ [End []]"
      unfolding h sv by (metis append_Cons append_assoc)
    then show ?thesis
      using exact unfolding h sv v
      by (auto simp: Number_toString_def)
  qed
qed

lemma set_burstIndices:
  "set (burstIndices c v fc tc) =
     {i. fc \<le> i \<and> i < min (fc + 10) tc \<and> \<not> ChunkCache_has c (cacheKey_of v i)}"
  by (auto simp: burstIndices_def Let_def SEEK_PREBUF_CHUNKS_def)

lemma match_here_digits: "match_here s = Some (m1, m2) \<Longrightarrow> all_digits m1"
  by (auto simp: match_here_def Let_def all_digits_def list_all_iff split: if_splits
           dest: set_takeWhileD)

lemma match_range_digits: "match_range s = Some (m1, m2) \<Longrightarrow> all_digits m1"
  by (induction s) (auto simp: match_here_digits split: option.splits)

text \<open>The start of a range is a number that is not negative, or the positive infinity.\<close>
lemma parseRange_start: "fst (parseRange h fs) \<noteq> NegInfinity"
proof (cases "\<exists>s m1 m2. h = Some s \<and> s \<noteq> [] \<and> match_range s = Some (m1, m2)")
  case True
  then obtain s m1 m2 where s: "h = Some s" "s \<noteq> []" "match_range s = Some (m1, m2)" by blast
  have "parseInt m1 \<noteq> NegInfinity"
    using match_range_digits[OF s(3)] by (rule parseInt_not_negative)
  then show ?thesis using s by (simp add: parseRange_def)
next
  case False
  then show ?thesis
    by (cases h) (auto simp: parseRange_def split: option.splits)
qed

text \<open>
  Claim C8. On a GET whose first chunk is not in the cache when the request arrives, the
  handler's calls are: the head (and the socket option), then \<open>seekTo (firstChunk)\<close>, then
  one awaited \<open>downloadChunksParallel\<close> over exactly the uncached indices from
  \<open>firstChunk\<close> up to, not including, \<open>min (firstChunk + 10) totalChunks\<close> (no call when
  there is none), and only then the body loop; nothing before the loop writes a body byte.
  When the start is infinite, so is the first chunk: the call is \<open>seekTo (Infinity)\<close>, there
  is no index to fetch, and the response is ended without a body.
\<close>

theorem seek_burst_before_body:
  assumes "match_url (req_url req) = Some videoId" and "activeStreams videoId = Some info"
    and "downloader info \<noteq> None"
    and "req_method req = ''GET''"
  shows "(fst (parseRange (req_range req) (fileSize info)) = Finite S
          \<and> firstChunk = S div CHUNK_SIZE
          \<and> \<not> ChunkCache_has (cache_at e 0) (cacheKey_of videoId firstChunk)
          \<and> idxs = burstIndices (cache_at e 0) videoId firstChunk (ceil_div (fileSize info) CHUNK_SIZE)
          \<longrightarrow>
          (\<exists>hd. handler activeStreams e req =
              (hd @ SeekTo (Finite firstChunk) #
                 (if idxs = [] then [] else [DownloadChunksParallel idxs])) @
              serve e videoId True (snd (parseRange (req_range req) (fileSize info)) + 1) 1 S 0
            \<and> body_of hd = []
            \<and> set idxs = {i. firstChunk \<le> i
                            \<and> i < min (firstChunk + 10) (ceil_div (fileSize info) CHUNK_SIZE)
                            \<and> \<not> ChunkCache_has (cache_at e 0) (cacheKey_of videoId i)}
            \<and> sorted idxs \<and> distinct idxs))
       \<and> (fst (parseRange (req_range req) (fileSize info)) = PosInfinity
          \<and> \<not> ChunkCache_has (cache_at e 0) (videoId @ '':Infinity'')
          \<longrightarrow>
          (\<exists>hd. handler activeStreams e req = hd @ [SeekTo PosInfinity, End []] \<and> body_of hd = []))"
proof (intro conjI impI)
  assume a: "fst (parseRange (req_range req) (fileSize info)) = Finite S
          \<and> firstChunk = S div CHUNK_SIZE
          \<and> \<not> ChunkCache_has (cache_at e 0) (cacheKey_of videoId firstChunk)
          \<and> idxs = burstIndices (cache_at e 0) videoId firstChunk (ceil_div (fileSize info) CHUNK_SIZE)"
  from a have a1: "fst (parseRange (req_range req) (fileSize info)) = Finite S"
    and fc: "firstChunk = S div CHUNK_SIZE"
    and a3: "\<not> ChunkCache_has (cache_at e 0) (cacheKey_of videoId firstChunk)"
    and a4: "idxs = burstIndices (cache_at e 0) videoId firstChunk (ceil_div (fileSize info) CHUNK_SIZE)"
    by blast+
  obtain E where pr: "parseRange (req_range req) (fileSize info) = (Finite S, E)"
    using a1 by (cases "parseRange (req_range req) (fileSize info)") simp
  have mth: "req_method req \<noteq> ''HEAD''" using assms(4) by simp
  have sb: "seekBurst (cache_at e 0) videoId True firstChunk (ceil_div (fileSize info) CHUNK_SIZE)
             = SeekTo (Finite firstChunk) # (if idxs = [] then [] else [DownloadChunksParallel idxs])"
    using a3 a4 by (simp add: seekBurst_def Let_def)
  have "\<exists>hd. handler activeStreams e req =
            (hd @ SeekTo (Finite firstChunk) # (if idxs = [] then [] else [DownloadChunksParallel idxs])) @
            serve e videoId True (E + 1) 1 S 0 \<and> body_of hd = []"
  proof (cases "truthy (req_range req)")
    case True
    show ?thesis
      unfolding handler_ranged[where activeStreams = activeStreams and e = e, OF assms(1,2) mth True pr]
      using assms(3) sb fc
      by (intro exI[of _ "[WriteHead 206 _] @ (if req_socket req then [SetNoDelay] else [])"]) simp
  next
    case False
    have "handler activeStreams e req =
            WriteHead 200
              [(''Content-Type'', mimeType info),
               (''Content-Length'', show_int (fileSize info)),
               (''Accept-Ranges'', ''bytes''),
               (''Access-Control-Allow-Origin'', ''*''),
               (''Cache-Control'', ''no-cache'')] #
            (if req_socket req then [SetNoDelay] else []) @
            seekBurst (cache_at e 0) videoId (downloader info \<noteq> None) (S div CHUNK_SIZE)
              (ceil_div (fileSize info) CHUNK_SIZE) @
            serve e videoId (downloader info \<noteq> None) (E + 1) 1 S 0"
      using assms(1,2) mth False pr by (simp add: handler_def Let_def after_head_def)
    then show ?thesis
      using assms(3) sb fc
      by (intro exI[of _ "[WriteHead 200 _] @ (if req_socket req then [SetNoDelay] else [])"]) simp
  qed
  moreover have "sorted idxs \<and> distinct idxs"
    unfolding a4 burstIndices_def Let_def by (simp add: sorted_wrt_filter)
  ultimately show "\<exists>hd. handler activeStreams e req =
              (hd @ SeekTo (Finite firstChunk) #
                 (if idxs = [] then [] else [DownloadChunksParallel idxs])) @
              serve e videoId True (snd (parseRange (req_range req) (fileSize info)) + 1) 1 S 0
            \<and> body_of hd = []
            \<and> set idxs = {i. firstChunk \<le> i
                            \<and> i < min (firstChunk + 10) (ceil_div (fileSize info) CHUNK_SIZE)
                            \<and> \<not> ChunkCache_has (cache_at e 0) (cacheKey_of videoId i)}
            \<and> sorted idxs \<and> distinct idxs"
    using pr set_burstIndices[of "cache_at e 0" videoId firstChunk] a4 by simp
next
  assume a: "fst (parseRange (req_range req) (fileSize info)) = PosInfinity
          \<and> \<not> ChunkCache_has (cache_at e 0) (videoId @ '':Infinity'')"
  obtain E where pr: "parseRange (req_range req) (fileSize info) = (PosInfinity, E)"
    using a by (cases "parseRange (req_range req) (fileSize info)") simp
  have mth: "req_method req \<noteq> ''HEAD''" using assms(4) by simp
  have tr: "truthy (req_range req)"
  proof (rule ccontr)
    assume "\<not> truthy (req_range req)"
    then have "parseRange (req_range req) (fileSize info) = (Finite 0, fileSize info - 1)"
      by (auto simp: truthy_def parseRange_def clamp_end_def split: option.splits)
    with pr show False by simp
  qed
  show "\<exists>hd. handler activeStreams e req = hd @ [SeekTo PosInfinity, End []] \<and> body_of hd = []"
    unfolding handler_infinite[where activeStreams = activeStreams and e = e, OF assms(1,2) mth tr pr]
    using assms(3) a
    by (intro exI[of _ "[WriteHead 206 _] @ (if req_socket req then [SetNoDelay] else [])"]) simp
qed

lemma show_int_small:
  "show_int 0 = ''0''" "show_int 1 = ''1''" "show_int 3 = ''3''" "show_int 4 = ''4''"
  "show_int 5 = ''5''" "show_int 7 = ''7''" "show_int (- 1) = ''-1''" "show_int (- 2) = ''-2''"
  by (simp_all add: show_int_safe show_nat_digit digit_char_def)



lemma demo_match_url: "match_url (req_url (demo_request r)) = Some ''v''"
  by (simp add: demo_request_def match_url_def)






lemma digits_value_7: "digits_value ''7'' = 7"
  by (simp add: digits_value_def digit_val_def)

theorem start_beyond_size_witness:
  "fileSize demo_info \<le> digits_value ''7''
   \<and> 0 \<le> fileSize demo_info
   \<and> fileSize demo_info \<le> 2 ^ 53
   \<and> parseInt ''7'' = Finite 7
   \<and> body_of (handler demo_streams demo_env_warm (demo_request (Some ''bytes=7-''))) = []
   \<and> (\<exists>hs. heads_of (handler demo_streams demo_env_warm (demo_request (Some ''bytes=7-''))) = [(206, hs)]
           \<and> map_of hs ''Content-Range'' = Some ''bytes 7-4/5''
           \<and> map_of hs ''Content-Length'' = Some ''-2'')"
proof -
  have d: "all_digits ''7''" by (simp add: all_digits_def isDigit_def)
  have f: "fileSize demo_info \<le> digits_value ''7''" "0 \<le> fileSize demo_info"
    "fileSize demo_info \<le> 2 ^ 53"
    by (simp_all add: digits_value_7 demo_info_def)
  have s: "digits_value ''7'' < 2 ^ 53"
    by (simp add: digits_value_7)
  have "\<exists>hs. heads_of (handler demo_streams demo_env_warm (demo_request (Some ''bytes=7-''))) = [(206, hs)]
           \<and> map_of hs ''Content-Range''
               = Some (''bytes '' @ Number_toString (parseInt ''7'') @ ''-'' @
                       show_int (fileSize demo_info - 1) @ ''/'' @ show_int (fileSize demo_info))
           \<and> map_of hs ''Content-Length''
               = Some (Number_toString (contentLength_of (fileSize demo_info - 1) (parseInt ''7'')))
           \<and> body_of (handler demo_streams demo_env_warm (demo_request (Some ''bytes=7-''))) = []
           \<and> (\<exists>pre. handler demo_streams demo_env_warm (demo_request (Some ''bytes=7-'')) = pre @ [End []])
           \<and> (digits_value ''7'' < 2 ^ 53 \<longrightarrow>
                parseInt ''7'' = Finite (digits_value ''7'')
                \<and> contentLength_of (fileSize demo_info - 1) (parseInt ''7'')
                    = Finite (fileSize demo_info - digits_value ''7'')
                \<and> fileSize demo_info - digits_value ''7'' \<le> 0)"
    by (rule start_beyond_size[where ds = "''7''" and videoId = "''v''" and info = demo_info,
              OF _ _ _ _ d _ f(1) f(2) f(3)])
       (simp_all add: demo_match_url demo_streams_def demo_request_def match_url_def)
  then obtain hs where
    h: "heads_of (handler demo_streams demo_env_warm (demo_request (Some ''bytes=7-''))) = [(206, hs)]"
       "map_of hs ''Content-Range''
               = Some (''bytes '' @ Number_toString (parseInt ''7'') @ ''-'' @
                       show_int (fileSize demo_info - 1) @ ''/'' @ show_int (fileSize demo_info))"
       "map_of hs ''Content-Length''
               = Some (Number_toString (contentLength_of (fileSize demo_info - 1) (parseInt ''7'')))"
       "body_of (handler demo_streams demo_env_warm (demo_request (Some ''bytes=7-''))) = []"
       "parseInt ''7'' = Finite (digits_value ''7'')"
       "contentLength_of (fileSize demo_info - 1) (parseInt ''7'')
                    = Finite (fileSize demo_info - digits_value ''7'')"
    using s by blast
  have r: "map_of hs ''Content-Range'' = Some ''bytes 7-4/5''"
    unfolding h(2) h(5) by (simp add: Number_toString_def digits_value_7 demo_info_def show_int_small)
  have l: "map_of hs ''Content-Length'' = Some ''-2''"
    unfolding h(3) h(6) by (simp add: Number_toString_def digits_value_7 demo_info_def show_int_small)
  show ?thesis using h(1,4,5) r l by (simp add: digits_value_7 demo_info_def)
qed

theorem seek_burst_before_body_witness:
  "\<not> ChunkCache_has (cache_at demo_env_cold 0) (cacheKey_of ''v'' 0)
   \<and> downloader demo_info \<noteq> None
   \<and> fst (parseRange (req_range (demo_request None)) (fileSize demo_info)) = Finite 0
   \<and> (\<exists>hd. handler demo_streams demo_env_cold (demo_request None) =
             (hd @ [SeekTo (Finite 0), DownloadChunksParallel [0]]) @ serve demo_env_cold ''v'' True 5 1 0 0
           \<and> body_of hd = [])"
proof -
  have c: "\<not> ChunkCache_has (cache_at demo_env_cold 0) (cacheKey_of ''v'' 0)"
    by (simp add: demo_env_cold_def chunkCache_def ChunkCache_new_def ChunkCache_has_def Map_has_def)
  have pr: "parseRange (req_range (demo_request None)) (fileSize demo_info) = (Finite 0, 4)"
    by (simp add: parseRange_def demo_info_def demo_request_def clamp_end_def)
  have b: "[0] = burstIndices (cache_at demo_env_cold 0) ''v'' 0 (ceil_div (fileSize demo_info) CHUNK_SIZE)"
    using c by (simp add: burstIndices_def ceil_div_def demo_info_def CHUNK_SIZE_def
                  SEEK_PREBUF_CHUNKS_def Let_def)
  note t = seek_burst_before_body[where videoId = "''v''" and info = demo_info and firstChunk = 0
             and activeStreams = demo_streams and req = "demo_request None" and e = demo_env_cold
             and S = 0 and idxs = "[0]", THEN conjunct1, rule_format]
  have "\<exists>hd. handler demo_streams demo_env_cold (demo_request None) =
            (hd @ SeekTo (Finite 0) # (if [0::int] = [] then [] else [DownloadChunksParallel [0]])) @
            serve demo_env_cold ''v'' True (snd (parseRange (req_range (demo_request None)) (fileSize demo_info)) + 1) 1 0 0
          \<and> body_of hd = []
          \<and> set [0::int] = {i. 0 \<le> i
                          \<and> i < min (0 + 10) (ceil_div (fileSize demo_info) CHUNK_SIZE)
                          \<and> \<not> ChunkCache_has (cache_at demo_env_cold 0) (cacheKey_of ''v'' i)}
          \<and> sorted [0::int] \<and> distinct [0::int]"
  proof (rule t)
    show "match_url (req_url (demo_request None)) = Some ''v''" by (rule demo_match_url)
    show "demo_streams ''v'' = Some demo_info" by (simp add: demo_streams_def)
    show "downloader demo_info \<noteq> None" by (simp add: demo_info_def)
    show "req_method (demo_request None) = ''GET''" by (simp add: demo_request_def)
    show "fst (parseRange (req_range (demo_request None)) (fileSize demo_info)) = Finite 0
          \<and> 0 = 0 div CHUNK_SIZE
          \<and> \<not> ChunkCache_has (cache_at demo_env_cold 0) (cacheKey_of ''v'' 0)
          \<and> [0] = burstIndices (cache_at demo_env_cold 0) ''v'' 0 (ceil_div (fileSize demo_info) CHUNK_SIZE)"
      using c b pr by simp
  qed
  then show ?thesis using c pr
    by (auto simp: demo_info_def)
qed

text \<open>
  Claim C10, as stated, has Content-Range \<open>bytes S-(fileSize-1)/fileSize\<close> and
  Content-Length \<open>fileSize - S\<close> for every \<open>S\<close> not below the size. For the five-byte stream
  and \<open>S = 2^53 + 1\<close> the start is rounded to \<open>2^53\<close>: the answer carries that number, and
  a length that is one more than \<open>fileSize - S\<close>.
\<close>

lemma parseInt_rounded: "parseInt ''9007199254740993'' = Finite 9007199254740992"
proof -
  have v: "digits_value ''9007199254740993'' = 2 ^ 53 + 1"
    by (simp add: digits_value_def digit_val_def)
  have b: "bit_length (2 ^ 53 + 1) = 54"
    using bit_length_eq[of 53 "2 ^ 53 + 1"] by simp
  have "(2::nat) ^ 53 < 2 ^ 1024" by (rule power_strict_increasing) simp_all
  then have r: "round_to_double (2 ^ 53 + 1) = Some (2 ^ 53)"
    unfolding round_to_double_def Let_def b by simp
  have n: "nat (2 ^ 53 + 1) = 2 ^ 53 + 1" by simp
  show ?thesis unfolding parseInt_def v to_double_def n r by simp
qed

theorem rounded_start_counterexample:
  "digits_value ''9007199254740993'' = 9007199254740993
   \<and> fileSize demo_info \<le> digits_value ''9007199254740993''
   \<and> (\<exists>hs. heads_of (handler demo_streams demo_env_warm
                 (demo_request (Some ''bytes=9007199254740993-''))) = [(206, hs)]
          \<and> map_of hs ''Content-Range'' = Some ''bytes 9007199254740992-4/5''
          \<and> map_of hs ''Content-Length'' = Some ''-9007199254740987'')"
proof -
  have v: "digits_value ''9007199254740993'' = 9007199254740993"
    by (simp add: digits_value_def digit_val_def)
  have d: "all_digits ''9007199254740993''" by (simp add: all_digits_def isDigit_def)
  have "parseRange (Some (''bytes='' @ ''9007199254740993'' @ ''-'' @ [])) (fileSize demo_info)
          = (parseInt ''9007199254740993'', fileSize demo_info - 1)"
    using d by (subst parseRange_wellformed) (simp_all add: all_digits_def)
  then have pr: "parseRange (req_range (demo_request (Some ''bytes=9007199254740993-''))) (fileSize demo_info)
          = (Finite 9007199254740992, 4)"
    by (simp add: parseInt_rounded demo_request_def demo_info_def)
  note h = handler_ranged[where activeStreams = demo_streams and e = demo_env_warm
             and req = "demo_request (Some ''bytes=9007199254740993-'')" and videoId = "''v''"
             and info = demo_info, OF demo_match_url _ _ _ pr]
  have c: "contentLength_of 4 (Finite 9007199254740992) = Finite (- 9007199254740987)"
    by (simp add: contentLength_of_def to_double_small)
  have s1: "show_int 9007199254740992 = ''9007199254740992''"
    by (simp add: show_int_safe show_nat.simps digit_char_def)
  have s2: "show_int (- 9007199254740987) = ''-9007199254740987''"
    by (simp add: show_int_safe show_nat.simps digit_char_def)
  have "heads_of (handler demo_streams demo_env_warm (demo_request (Some ''bytes=9007199254740993-'')))
          = [(206, [(''Content-Type'', mimeType demo_info),
               (''Content-Length'', ''-9007199254740987''),
               (''Content-Range'', ''bytes 9007199254740992-4/5''),
               (''Accept-Ranges'', ''bytes''),
               (''Access-Control-Allow-Origin'', ''*''),
               (''Cache-Control'', ''no-cache'')])]"
    by (subst h)
       (simp_all add: demo_streams_def demo_request_def truthy_def heads_of_serve c s1 s2
          Number_toString_def show_int_small demo_info_def)
  then show ?thesis using v by (simp add: demo_info_def)
qed

section \<open>Properties of the chunk fetcher\<close>

lemma MAX_RETRIES_4: "MAX_RETRIES = 4" by (simp add: MAX_RETRIES_def)

lemma getClient_index:
  assumes "clientPool \<noteq> []" "0 \<le> ci"
  shows "getClient clientPool ci = Some (nat ci mod length clientPool)"
proof -
  have l: "0 < int (length clientPool)" using assms(1) by simp
  have "js_rem ci (int (length clientPool)) = ci mod int (length clientPool)"
    using assms(2) l by (simp add: js_rem_def)
  moreover have "\<not> ci mod int (length clientPool) < 0" using l by (simp add: not_less)
  moreover have "nat (ci mod int (length clientPool)) = nat ci mod length clientPool"
    using assms(2) by (simp add: nat_mod_distrib)
  ultimately show ?thesis using assms(1) by (simp add: getClient_def)
qed

lemma attempt_once_props:
  assumes "clientPool \<noteq> []" "0 \<le> ci" "1 \<le> a" "a \<le> MAX_RETRIES"
    and "attempt_once r clientPool ci a = (pool1, entry)"
  shows "length pool1 = length clientPool"
    and "att_client entry = Some ((nat ci + (a - 1)) mod length clientPool)"
    and "att_delay entry = (if threw entry \<and> a < 4 then Some (200 * 2 ^ (a - 1)) else None)"
    and "att_outcome entry = Got buf \<Longrightarrow> buf \<noteq> []"
proof -
  have "0 \<le> ci + int a - 1" using assms(2,3) by simp
  moreover have "nat (ci + int a - 1) = nat ci + (a - 1)" using assms(2,3) by linarith
  ultimately have g: "getClient clientPool (ci + int a - 1) = Some ((nat ci + (a - 1)) mod length clientPool)"
    using getClient_index[OF assms(1), of "ci + int a - 1"] by simp
  note d = attempt_once_def Let_def g threw_def backoff_def MAX_RETRIES_4
  show "length pool1 = length clientPool"
    using assms(5) by (auto simp: d split: dl_result.splits if_splits)
  show "att_client entry = Some ((nat ci + (a - 1)) mod length clientPool)"
    using assms(5) by (auto simp: d split: dl_result.splits if_splits)
  show "att_delay entry = (if threw entry \<and> a < 4 then Some (200 * 2 ^ (a - 1)) else None)"
    using assms(4,5) by (auto simp: d split: dl_result.splits if_splits)
  show "att_outcome entry = Got buf \<Longrightarrow> buf \<noteq> []"
    using assms(5) by (auto simp: d split: dl_result.splits if_splits)
qed

lemma impl_loop_spec:
  assumes "clientPool \<noteq> []" "0 \<le> ci" "1 \<le> a"
    and "impl_loop r key ci a clientPool cache = (res, pool2, cache2, lg)"
  shows "loop_spec (length clientPool) ci a key cache res cache2 lg"
  using assms
proof (induction r key ci a clientPool cache arbitrary: res pool2 cache2 lg rule: impl_loop.induct)
  case (1 r key ci a clientPool cache)
  show ?case
  proof (cases "a \<le> MAX_RETRIES")
    case False
    then have "impl_loop r key ci a clientPool cache = (None, clientPool, cache, [])"
      by (subst impl_loop.simps) simp
    with "1.prems"(4) False show ?thesis by (simp add: loop_spec_def)
  next
    case True
    obtain pool1 entry where ao: "attempt_once r clientPool ci a = (pool1, entry)"
      by (cases "attempt_once r clientPool ci a")
    note p = attempt_once_props[OF "1.prems"(1,2,3) True ao]
    show ?thesis
    proof (cases "got_bytes entry")
      case True
      then obtain buf where g: "att_outcome entry = Got buf"
        by (auto simp: got_bytes_def split: attempt_outcome.splits)
      have "impl_loop r key ci a clientPool cache
              = (Some buf, pool1, ChunkCache_set cache key buf, [entry])"
        using \<open>a \<le> MAX_RETRIES\<close> ao g by (subst impl_loop.simps) simp
      with "1.prems"(4) have e: "res = Some buf" "cache2 = ChunkCache_set cache key buf" "lg = [entry]"
        by simp_all
      show ?thesis using p(2,3) p(4)[OF g] g \<open>a \<le> MAX_RETRIES\<close> True
        by (auto simp: loop_spec_def e)
    next
      case False
      obtain res' pool' cache' rest where
        rec: "impl_loop r key ci (a + 1) pool1 cache = (res', pool', cache', rest)"
        by (cases "impl_loop r key ci (a + 1) pool1 cache")
      have u: "impl_loop r key ci a clientPool cache = (res', pool', cache', entry # rest)"
        using \<open>a \<le> MAX_RETRIES\<close> ao False rec
        by (subst impl_loop.simps) (auto simp: got_bytes_def split: attempt_outcome.splits)
      with "1.prems"(4) have e: "res = res'" "cache2 = cache'" "lg = entry # rest" by simp_all
      have ne: "pool1 \<noteq> []" using p(1) "1.prems"(1) by auto
      have ih: "loop_spec (length pool1) ci (a + 1) key cache res' cache' rest"
      proof (cases "att_outcome entry")
        case NoClient
        show ?thesis by (rule "1.IH"(1)[OF \<open>a \<le> MAX_RETRIES\<close> ao[symmetric] NoClient ne "1.prems"(2) _ rec]) simp
      next
        case ReconnectFailed
        show ?thesis by (rule "1.IH"(2)[OF \<open>a \<le> MAX_RETRIES\<close> ao[symmetric] ReconnectFailed ne "1.prems"(2) _ rec]) simp
      next
        case DownloadThrew
        show ?thesis by (rule "1.IH"(3)[OF \<open>a \<le> MAX_RETRIES\<close> ao[symmetric] DownloadThrew ne "1.prems"(2) _ rec]) simp
      next
        case Empty
        show ?thesis by (rule "1.IH"(4)[OF \<open>a \<le> MAX_RETRIES\<close> ao[symmetric] Empty ne "1.prems"(2) _ rec]) simp
      next
        case (Got b)
        with False show ?thesis by (simp add: got_bytes_def)
      qed
      have a1: "\<And>t. nat ci + (a - 1) + Suc t = nat ci + (a + 1 - 1) + t"
        using "1.prems"(3) by simp
      have a2: "\<And>t. a - 1 + Suc t = a + 1 - 1 + t" using "1.prems"(3) by simp
      have a3: "\<And>t. a + Suc t = a + 1 + t" by simp
      have a4: "MAX_RETRIES - a = MAX_RETRIES + 1 - (a + 1)" by simp
      note raw = ih[unfolded loop_spec_def p(1)]
      note r1 = raw[THEN conjunct1]
      note r2 = raw[THEN conjunct2, THEN conjunct1, rule_format]
      note r3 = raw[THEN conjunct2, THEN conjunct2, THEN conjunct1, rule_format]
      note r4 = raw[THEN conjunct2, THEN conjunct2, THEN conjunct2, THEN conjunct1, rule_format]
      note r5 = raw[THEN conjunct2, THEN conjunct2, THEN conjunct2, THEN conjunct2]
      have i1: "length rest \<le> MAX_RETRIES - a"
        unfolding a4 by (rule r1)
      have i2: "\<And>t. t < length rest \<Longrightarrow>
                  att_client (rest ! t) = Some ((nat ci + (a - 1) + Suc t) mod length clientPool)"
        unfolding a1 by (rule r2)
      have i3: "\<And>t. t < length rest \<Longrightarrow> att_delay (rest ! t) =
                  (if threw (rest ! t) \<and> a + Suc t < 4 then Some (200 * 2 ^ (a - 1 + Suc t)) else None)"
        unfolding a2 a3 by (rule r3)
      have i4: "\<And>t. t < length rest \<Longrightarrow>
                  got_bytes (rest ! t) \<longleftrightarrow> (t + 1 = length rest \<and> res' \<noteq> None)"
        by (rule r4)
      have i5: "case res' of
                   Some buf \<Rightarrow> buf \<noteq> [] \<and> rest \<noteq> [] \<and> att_outcome (last rest) = Got buf
                              \<and> cache' = ChunkCache_set cache key buf
                 | None \<Rightarrow> length rest = MAX_RETRIES - a \<and> cache' = cache"
        unfolding a4 using r5 by (simp split: option.splits)
      show ?thesis
        unfolding e loop_spec_def
      proof (intro conjI allI impI)
        show "length (entry # rest) \<le> MAX_RETRIES + 1 - a"
          using i1 \<open>a \<le> MAX_RETRIES\<close> by simp
      next
        fix t assume "t < length (entry # rest)"
        then show "att_client ((entry # rest) ! t) = Some ((nat ci + (a - 1) + t) mod length clientPool)"
          using i2 p(2) by (cases t) auto
      next
        fix t assume "t < length (entry # rest)"
        then show "att_delay ((entry # rest) ! t) =
            (if threw ((entry # rest) ! t) \<and> a + t < 4 then Some (200 * 2 ^ (a - 1 + t)) else None)"
          using i3 p(3) by (cases t) auto
      next
        fix t assume "t < length (entry # rest)"
        then show "got_bytes ((entry # rest) ! t) = (t + 1 = length (entry # rest) \<and> res' \<noteq> None)"
          using i4 i5 False by (cases t) (auto split: option.splits)
      next
        show "case res' of
                None \<Rightarrow> length (entry # rest) = MAX_RETRIES + 1 - a \<and> cache' = cache
              | Some buf \<Rightarrow> buf \<noteq> [] \<and> entry # rest \<noteq> [] \<and> att_outcome (last (entry # rest)) = Got buf
                            \<and> cache' = ChunkCache_set cache key buf"
          using i5 \<open>a \<le> MAX_RETRIES\<close> by (auto split: option.splits)
      qed
    qed
  qed
qed

lemma Map_get_Map_set: "Map_get (Map_set k v m) k = Some v"
proof (cases "Map_has m k")
  case False
  then have "map_of m k = None" by (simp add: Map_has_def map_of_eq_None_iff)
  with False show ?thesis by (simp add: Map_set_def Map_get_def map_add_def)
next
  case True
  have "k \<in> fst ` set m \<Longrightarrow> map_of (map (\<lambda>p. if fst p = k then (k, v) else p) m) k = Some v"
    by (induction m) auto
  with True show ?thesis by (simp add: Map_set_def Map_get_def Map_has_def)
qed

lemma Map_get_after_set: "Map_get (map_kv (ChunkCache_set c k b)) k = Some b"
  by (simp add: ChunkCache_set_def Let_def Map_get_Map_set)

lemma misses_not_hit:
  assumes "misses w key"
  shows "\<not> (case fst (ChunkCache_get (w_cache w) key) of None \<Rightarrow> False | Some b \<Rightarrow> length b > 0)"
    and "\<not> Map_has (w_inFlight w) key"
  using assms by (auto simp: misses_def ChunkCache_get_def split: option.splits)

text \<open>
  Claim C7, as the code has it. A \<open>downloadChunk\<close> for a chunk inside the file that misses
  the cache and the registry, on a non-empty pool, makes between one and four attempts.
  Attempt \<open>t + 1\<close> takes the client at index \<open>(chunkIndex + t) mod pool_size\<close>. It is followed
  by a sleep of \<open>200 * 2 ^ t\<close> ms exactly when it ended in an exception and is not the
  fourth; an attempt that gave no bytes without an exception is followed by no sleep. Only
  the last attempt can give bytes: then they are non-empty, stored in the cache under the key
  and returned. A \<open>null\<close> result comes after four attempts. In every case the key is gone
  from the in-flight registry at return.
\<close>

theorem fetch_retry:
  assumes "misses w (cacheKey_of videoId chunkIndex)" and "w_pool w \<noteq> []"
    and "0 \<le> chunkIndex" and "chunkIndex * CHUNK_SIZE < fs"
    and "downloadChunk r w videoId chunkIndex fs = (res, w', lg)"
  shows "1 \<le> length lg \<and> length lg \<le> 4
     \<and> (\<forall>t < length lg. att_client (lg ! t) = Some ((nat chunkIndex + t) mod length (w_pool w)))
     \<and> (\<forall>t < length lg. att_delay (lg ! t) =
           (if threw (lg ! t) \<and> t + 1 < 4 then Some (200 * 2 ^ t) else None))
     \<and> (\<forall>t < length lg. got_bytes (lg ! t) \<longleftrightarrow> (t + 1 = length lg \<and> res \<noteq> Resolved None))
     \<and> (case res of
           Resolved (Some buf) \<Rightarrow>
             buf \<noteq> [] \<and> att_outcome (last lg) = Got buf
             \<and> Map_get (map_kv (w_cache w')) (cacheKey_of videoId chunkIndex) = Some buf
         | Resolved None \<Rightarrow> length lg = 4
         | Rejected \<Rightarrow> False)
     \<and> \<not> Map_has (w_inFlight w') (cacheKey_of videoId chunkIndex)"
proof -
  let ?key = "cacheKey_of videoId chunkIndex"
  obtain cached c1 where g: "ChunkCache_get (w_cache w) ?key = (cached, c1)"
    by (cases "ChunkCache_get (w_cache w) ?key")
  have nh: "\<not> (case cached of None \<Rightarrow> False | Some b \<Rightarrow> length b > 0)"
    using misses_not_hit(1)[OF assms(1)] g by simp
  have nf: "\<not> Map_has (w_inFlight w) ?key" by (rule misses_not_hit(2)[OF assms(1)])
  obtain v pool' cache' attempts where
    im: "impl_loop r ?key chunkIndex 1 (w_pool w) c1 = (v, pool', cache', attempts)"
    by (cases "impl_loop r ?key chunkIndex 1 (w_pool w) c1")
  have dc: "downloadChunk r w videoId chunkIndex fs =
              (Resolved v,
               w\<lparr> w_cache := cache', w_pool := pool',
                  w_inFlight := Map_delete ?key (Map_set ?key (Resolved v) (w_inFlight w)) \<rparr>,
               attempts)"
    using g nh nf im assms(4)
    by (simp add: downloadChunk_def downloadChunkImpl_def Let_def)
  with assms(5) have e: "res = Resolved v" "lg = attempts"
    "w' = w\<lparr> w_cache := cache', w_pool := pool',
               w_inFlight := Map_delete ?key (Map_set ?key (Resolved v) (w_inFlight w)) \<rparr>"
    by auto
  note sp = impl_loop_spec[OF assms(2,3) _ im, unfolded loop_spec_def MAX_RETRIES_4, simplified]
  note s1 = sp[THEN conjunct1]
  note s2 = sp[THEN conjunct2, THEN conjunct1, rule_format]
  note s3 = sp[THEN conjunct2, THEN conjunct2, THEN conjunct1, rule_format]
  note s4 = sp[THEN conjunct2, THEN conjunct2, THEN conjunct2, THEN conjunct1, rule_format]
  note s5 = sp[THEN conjunct2, THEN conjunct2, THEN conjunct2, THEN conjunct2]
  have l: "1 \<le> length attempts \<and> length attempts \<le> 4"
    using s1 s5 by (cases v) (auto simp: Suc_le_eq)
  have c: "case v of
             Some buf \<Rightarrow> buf \<noteq> [] \<and> att_outcome (last attempts) = Got buf
                          \<and> Map_get (map_kv cache') ?key = Some buf
           | None \<Rightarrow> length attempts = 4"
    using s5 by (cases v) (auto simp: Map_get_after_set)
  have "\<not> Map_has (w_inFlight w') ?key" by (simp add: e)
  moreover have "\<forall>t < length lg. att_client (lg ! t) = Some ((nat chunkIndex + t) mod length (w_pool w))"
    using s2 by (simp add: e)
  moreover have "\<forall>t < length lg. att_delay (lg ! t) =
           (if threw (lg ! t) \<and> t + 1 < 4 then Some (200 * 2 ^ t) else None)"
    using s3 by (simp add: e)
  moreover have "\<forall>t < length lg. got_bytes (lg ! t) \<longleftrightarrow> (t + 1 = length lg \<and> res \<noteq> Resolved None)"
    using s4 by (simp add: e)
  ultimately show ?thesis using l c by (cases v) (simp_all add: e)
qed

lemma demo_key4: "cacheKey_of ''v'' 4 = ''v:4''"
  by (simp add: cacheKey_of_def show_int_small)

lemma demo_misses: "misses demo_world (cacheKey_of ''v'' 4)"
  by (simp add: misses_def demo_world_def chunkCache_def ChunkCache_new_def Map_get_def Map_has_def)

lemmas demo_eval =
  downloadChunk_def downloadChunkImpl_def demo_key4 demo_world_def chunkCache_def ChunkCache_new_def
  ChunkCache_get_def Map_get_def Map_has_def Map_set_def Map_delete_def Map_size_def Let_def
  CHUNK_SIZE_def MAX_RETRIES_def impl_loop.simps attempt_once_def getClient_def js_rem_def
  demo_pool_def backoff_def ChunkCache_set_def reclaim_def evict.simps CACHE_MAX_BYTES_def

lemma demo_download_throw:
  "downloadChunk demo_remote_throw_then_ok demo_world ''v'' 4 10485760 =
     (Resolved (Some [1, 2, 3]),
      \<lparr> w_cache = \<lparr> maxBytes = 734003200, usedBytes = 3, map_kv = [(''v:4'', [1, 2, 3])] \<rparr>,
        w_inFlight = [], w_pool = demo_pool \<rparr>,
      [\<lparr> att_client = Some 1, att_outcome = DownloadThrew, att_delay = Some 200 \<rparr>,
       \<lparr> att_client = Some 2, att_outcome = Got [1, 2, 3], att_delay = None \<rparr>])"
  by (simp add: demo_eval demo_remote_throw_then_ok_def)

theorem fetch_retry_witness:
  "misses demo_world (cacheKey_of ''v'' 4)
   \<and> downloadChunk demo_remote_throw_then_ok demo_world ''v'' 4 10485760 =
     (Resolved (Some [1, 2, 3]),
      \<lparr> w_cache = \<lparr> maxBytes = 734003200, usedBytes = 3, map_kv = [(''v:4'', [1, 2, 3])] \<rparr>,
        w_inFlight = [], w_pool = demo_pool \<rparr>,
      [\<lparr> att_client = Some 1, att_outcome = DownloadThrew, att_delay = Some 200 \<rparr>,
       \<lparr> att_client = Some 2, att_outcome = Got [1, 2, 3], att_delay = None \<rparr>])
   \<and> threw \<lparr> att_client = Some 1, att_outcome = DownloadThrew, att_delay = Some 200 \<rparr>
   \<and> (1::nat) \<le> length [\<lparr> att_client = Some 1, att_outcome = DownloadThrew, att_delay = Some 200 \<rparr>,
            \<lparr> att_client = Some 2, att_outcome = Got [1, 2, 3], att_delay = None \<rparr>]
   \<and> \<not> Map_has (w_inFlight \<lparr> w_cache = \<lparr> maxBytes = 734003200, usedBytes = 3,
                                          map_kv = [(''v:4'', [1, 2, 3])] \<rparr>,
                               w_inFlight = [], w_pool = demo_pool \<rparr>) (cacheKey_of ''v'' 4)"
proof -
  have p: "w_pool demo_world \<noteq> []" by (simp add: demo_world_def demo_pool_def)
  have o: "4 * CHUNK_SIZE < 10485760" by (simp add: CHUNK_SIZE_def)
  from fetch_retry[OF demo_misses p _ o demo_download_throw]
  show ?thesis using demo_misses demo_download_throw by (simp add: threw_def)
qed

text \<open>
  The claim as stated has a sleep between any two attempts. Here the first download gives
  nothing without throwing: the second attempt follows with no sleep in between.
\<close>

theorem no_sleep_after_empty_counterexample:
  "snd (snd (downloadChunk demo_remote_empty_then_ok demo_world ''v'' 4 10485760)) =
     [\<lparr> att_client = Some 1, att_outcome = Empty, att_delay = None \<rparr>,
      \<lparr> att_client = Some 2, att_outcome = Got [1, 2, 3], att_delay = None \<rparr>]"
  by (simp add: demo_eval demo_remote_empty_then_ok_def)

section \<open>Properties of the interleaved tasks\<close>

lemma Map_get_delete: "Map_get (Map_delete k m) k' = (if k' = k then None else Map_get m k')"
  by (induction m) (auto simp: Map_get_def Map_delete_def)

lemma Map_get_set_fresh:
  assumes "Map_get m k = None"
  shows "Map_get (Map_set k v m) k' = (if k' = k then Some v else Map_get m k')"
proof -
  have n: "map_of m k = None" using assms by (simp add: Map_get_def)
  then have "\<not> Map_has m k" by (simp add: Map_has_def map_of_eq_None_iff)
  then have "Map_set k v m = m @ [(k, v)]" by (simp add: Map_set_def)
  then show ?thesis using n by (cases "map_of m k'") (auto simp: Map_get_def map_add_def)
qed

lemma registered_reg:
  "registered s p k \<longleftrightarrow>
     (p < length (snd (reg s)) \<and> fst (snd (reg s) ! p) = k \<and>
      (case snd (snd (reg s) ! p) of Finalized r \<Rightarrow> False | _ \<Rightarrow> True))"
  by (simp add: registered_def reg_def)

lemma registry_inv_reg:
  "registry_inv s \<longleftrightarrow>
     (\<forall>k p. Map_get (fst (reg s)) k = Some p \<longleftrightarrow>
        (p < length (snd (reg s)) \<and> fst (snd (reg s) ! p) = k \<and>
         (case snd (snd (reg s) ! p) of Finalized r \<Rightarrow> False | _ \<Rightarrow> True)))"
  by (simp add: registry_inv_def registered_def reg_def)

lemma launches_reg: "launches s k = length (filter (\<lambda>kp. fst kp = k) (snd (reg s)))"
  by (simp add: launches_def reg_def)

lemma reg_eq_inv: "reg s' = reg s \<Longrightarrow> registry_inv s' = registry_inv s"
  by (simp add: registry_inv_reg)

lemma launch_cases:
  assumes "launch (reg s) (reg s')" "reg s' \<noteq> reg s"
  obtains k where "Map_get (sys_inFlight s) k = None"
    and "sys_inFlight s' = Map_set k (length (sys_impls s)) (sys_inFlight s)"
    and "sys_impls s' = sys_impls s @ [(k, Pending)]"
proof -
  from assms have "\<exists>k. Map_get (fst (reg s)) k = None \<and>
           reg s' = (Map_set k (length (snd (reg s))) (fst (reg s)), snd (reg s) @ [(k, Pending)])"
    unfolding launch_def by blast
  then obtain k where "Map_get (fst (reg s)) k = None"
    and "reg s' = (Map_set k (length (snd (reg s))) (fst (reg s)), snd (reg s) @ [(k, Pending)])"
    by blast
  then have "Map_get (sys_inFlight s) k = None"
    and "sys_inFlight s' = Map_set k (length (sys_impls s)) (sys_inFlight s)"
    and "sys_impls s' = sys_impls s @ [(k, Pending)]"
    by (simp_all add: reg_def)
  then show ?thesis by (rule that)
qed


text \<open>one launch step keeps the invariant\<close>
lemma launch_inv:
  assumes "launch (reg s) (reg s')" "registry_inv s"
  shows "registry_inv s'"
proof (cases "reg s' = reg s")
  case True
  show ?thesis using reg_eq_inv[OF True] assms(2) by simp
next
  case False
  from launch_cases[OF assms(1) False] obtain k where k: "Map_get (sys_inFlight s) k = None"
    and r: "sys_inFlight s' = Map_set k (length (sys_impls s)) (sys_inFlight s)"
           "sys_impls s' = sys_impls s @ [(k, Pending)]"
    by blast
  have old: "\<And>k' p. Map_get (sys_inFlight s) k' = Some p \<longleftrightarrow> registered s p k'"
    using assms(2) by (simp add: registry_inv_def)
  show ?thesis
    unfolding registry_inv_def
  proof (intro allI)
    fix k' p
    have g: "Map_get (sys_inFlight s') k' = (if k' = k then Some (length (sys_impls s)) else Map_get (sys_inFlight s) k')"
      unfolding r by (rule Map_get_set_fresh[OF k])
    show "Map_get (sys_inFlight s') k' = Some p \<longleftrightarrow> registered s' p k'"
    proof (cases "p < length (sys_impls s)")
      case True
      have e: "registered s' p k' = registered s p k'"
        using True by (simp add: registered_def r nth_append)
      have "\<not> registered s p k" using old[of k p] k by simp
      then show ?thesis unfolding g e using old[of k' p] True by (cases "k' = k") simp_all
    next
      case False
      have "\<not> registered s p k'" using False by (simp add: registered_def)
      then have n: "Map_get (sys_inFlight s) k' \<noteq> Some p" using old[of k' p] by simp
      have "registered s' p k' \<longleftrightarrow> p = length (sys_impls s) \<and> k' = k"
        using False by (cases "p = length (sys_impls s)") (auto simp: registered_def r nth_append)
      then show ?thesis unfolding g using n by (cases "k' = k") auto
    qed
  qed
qed

lemma launch_episode:
  assumes "launch (reg s) (reg s')" "registry_inv s" "registered s p k"
  shows "registered s' p k \<and> launches s' k = launches s k"
proof (cases "reg s' = reg s")
  case True
  then show ?thesis using assms(3) by (simp add: registered_reg launches_reg)
next
  case False
  from launch_cases[OF assms(1) False] obtain k' where k: "Map_get (sys_inFlight s) k' = None"
    and r: "sys_impls s' = sys_impls s @ [(k', Pending)]"
    by blast
  have "Map_get (sys_inFlight s) k = Some p" using assms(2,3) by (simp add: registry_inv_def)
  then have "k' \<noteq> k" using k by auto
  then show ?thesis using assms(3) by (auto simp: registered_def launches_def r nth_append)
qed

lemma launches_inv_star:
  assumes "launch\<^sup>*\<^sup>* r r'" 
  shows "\<And>s s'. reg s = r \<Longrightarrow> reg s' = r' \<Longrightarrow> registry_inv s \<Longrightarrow> registry_inv s'"
  using assms
proof (induction rule: rtranclp_induct)
  case base
  then show ?case using reg_eq_inv[of s' s] by simp
next
  case (step y z)
  define m where "m = sys0\<lparr> sys_inFlight := fst y, sys_impls := snd y \<rparr>"
  have my: "reg m = y" by (simp add: m_def reg_def)
  have "registry_inv m" using step.IH[OF step.prems(1) my step.prems(3)] .
  moreover have "launch (reg m) (reg s')" using step.hyps(2) my step.prems(2) by simp
  ultimately show ?case by (rule launch_inv[rotated])
qed

lemma launches_episode_star:
  assumes "launch\<^sup>*\<^sup>* r r'" 
  shows "\<And>s s'. reg s = r \<Longrightarrow> reg s' = r' \<Longrightarrow> registry_inv s \<Longrightarrow> registered s p k \<Longrightarrow>
           registered s' p k \<and> launches s' k = launches s k"
  using assms
proof (induction rule: rtranclp_induct)
  case base
  then show ?case by (simp add: registered_reg launches_reg)
next
  case (step y z)
  define m where "m = sys0\<lparr> sys_inFlight := fst y, sys_impls := snd y \<rparr>"
  have my: "reg m = y" by (simp add: m_def reg_def)
  have im: "registry_inv m"
    using launches_inv_star[OF step.hyps(1) step.prems(1) my step.prems(3)] .
  have em: "registered m p k \<and> launches m k = launches s k"
    using step.IH[OF step.prems(1) my step.prems(3,4)] .
  have "launch (reg m) (reg s')" using step.hyps(2) my step.prems(2) by simp
  from launch_episode[OF this im, of p k] em show ?case by simp
qed

lemma launch_refl: "launch r r" by (simp add: launch_def)

lemma call_launch: "launch (reg s) (reg (snd (call_downloadChunk s k)))"
  by (auto simp: call_downloadChunk_def launch_def reg_def Let_def
           split: prod.splits option.splits if_splits)

lemma reg_set_worker [simp]: "reg (set_worker s w st) = reg s"
  by (simp add: set_worker_def reg_def)

lemma reg_downloaders_update [simp]: "reg (s\<lparr> sys_downloaders := ds \<rparr>) = reg s"
  by (simp add: reg_def)

lemma reg_workers_update [simp]: "reg (s\<lparr> sys_workers := ws \<rparr>) = reg s"
  by (simp add: reg_def)

lemma reg_streams_update [simp]: "reg (s\<lparr> sys_streams := ss \<rparr>) = reg s"
  by (simp add: reg_def)

lemma reg_cache_update [simp]: "reg (s\<lparr> sys_cache := c \<rparr>) = reg s"
  by (simp add: reg_def)

lemma worker_loop_head_launch: "launch (reg s) (reg (worker_loop_head s w))"
proof -
  let ?d = "sys_downloaders s ! wk_downloader (sys_workers s ! w)"
  show ?thesis
  proof (cases "running ?d")
    case False
    then show ?thesis by (simp add: worker_loop_head_def Let_def launch_refl)
  next
    case True
    obtain idx d1 where g: "getNextChunk (sys_cache s) (sys_inFlight s) ?d = (idx, d1)"
      by (cases "getNextChunk (sys_cache s) (sys_inFlight s) ?d")
    let ?s1 = "s\<lparr> sys_downloaders := (sys_downloaders s)[wk_downloader (sys_workers s ! w) := d1] \<rparr>"
    show ?thesis
    proof (cases idx)
      case None
      then show ?thesis using True g by (simp add: worker_loop_head_def Let_def launch_refl)
    next
      case (Some i)
      have "launch (reg ?s1) (reg (snd (call_downloadChunk ?s1 (cacheKey_of (sd_videoId ?d) i))))"
        by (rule call_launch)
      then show ?thesis using True g Some
        by (auto simp: worker_loop_head_def Let_def split: prod.splits)
    qed
  qed
qed

lemma worker_wakes_launch: "worker_wakes s w = Some s' \<Longrightarrow> launch (reg s) (reg s')"
  using worker_loop_head_launch[of s w]
  by (auto simp: worker_wakes_def launch_refl split: if_splits worker_state.splits)

lemma spawn_worker_launch: "launch (reg s) (reg (spawn_worker dref s))"
proof -
  let ?s1 = "s\<lparr> sys_workers := sys_workers s @ [\<lparr> wk_downloader = dref, wk_state = Sleeping \<rparr>] \<rparr>"
  have "launch (reg ?s1) (reg (worker_loop_head ?s1 (length (sys_workers s))))"
    by (rule worker_loop_head_launch)
  then show ?thesis by (simp add: spawn_worker_def Let_def)
qed

lemma spawn_workers_launch: "launch\<^sup>*\<^sup>* (reg s) (reg ((spawn_worker dref ^^ n) s))"
proof (induction n)
  case 0
  then show ?case by simp
next
  case (Suc n)
  have "launch (reg ((spawn_worker dref ^^ n) s)) (reg (spawn_worker dref ((spawn_worker dref ^^ n) s)))"
    by (rule spawn_worker_launch)
  with Suc show ?case by (simp add: rtranclp.rtrancl_into_rtrancl)
qed

lemma register_stream_launch: "launch\<^sup>*\<^sup>* (reg s) (reg (register_stream s v sz mime))"
proof -
  let ?s1 = "s\<lparr> sys_downloaders := sys_downloaders s @ [StreamDownloader_new v sz] \<rparr>"
  let ?dref = "length (sys_downloaders s)"
  let ?s1' = "?s1\<lparr> sys_downloaders :=
                     (sys_downloaders ?s1)[?dref := (sys_downloaders ?s1 ! ?dref)\<lparr> cursor := PREFETCH_CHUNKS, playbackChunk := 0,
                                                   running := True \<rparr>] \<rparr>"
  have "launch\<^sup>*\<^sup>* (reg ?s1') (reg ((spawn_worker ?dref ^^ PARALLEL_WORKERS) ?s1'))"
    by (rule spawn_workers_launch)
  then show ?thesis
    by (simp add: register_stream_def StreamDownloader_start_def Let_def)
qed

lemma reg_stop_downloader [simp]: "reg (stop_downloader s info) = reg s"
  by (simp add: stop_downloader_def split: option.splits)

lemma reg_stopStream [simp]: "reg (stopStream s v) = reg s"
  by (simp add: stopStream_def Let_def split: option.splits)

lemma reg_foldl_stop [simp]: "reg (foldl stop_downloader s infos) = reg s"
  by (induction infos arbitrary: s) simp_all

lemma reg_destroy [simp]: "reg (destroy s) = reg s"
  by (simp add: destroy_def Let_def)

text \<open>every event but a return and a finally block is a chain of launches\<close>
lemma step_launches:
  assumes "step s ev = Some s'" "\<forall>p r. ev \<noteq> ImplReturns p r" "\<forall>p. ev \<noteq> Finally p"
  shows "launch\<^sup>*\<^sup>* (reg s) (reg s')"
proof (cases ev)
  case (DownloadChunk k)
  then show ?thesis using assms(1) call_launch[of s k] by auto
next
  case (WorkerWakes w)
  then show ?thesis using assms(1) worker_wakes_launch[of s w s'] by auto
next
  case (StartStream v sz mime)
  then show ?thesis using assms(1) register_stream_launch[of s v sz mime] by auto
next
  case (StopStream v)
  then show ?thesis using assms(1) by auto
next
  case Destroy
  then show ?thesis using assms(1) by auto
qed (use assms in auto)

lemma launches_map_fst: "launches s k = length (filter (\<lambda>k'. k' = k) (map fst (sys_impls s)))"
  by (simp add: launches_def filter_map comp_def)

lemma impl_returns_inv:
  assumes "impl_returns s p r = Some s'" "registry_inv s"
  shows "registry_inv s'"
proof -
  from assms(1) have p: "p < length (sys_impls s)" "snd (sys_impls s ! p) = Pending"
    and i: "sys_impls s' = (sys_impls s)[p := (fst (sys_impls s ! p), Settled r)]"
    and f: "sys_inFlight s' = sys_inFlight s"
    by (auto simp: impl_returns_def Let_def split: if_splits)
  have "\<And>q k. registered s' q k = registered s q k"
    using p by (auto simp: registered_def i nth_list_update)
  then show ?thesis using assms(2) by (simp add: registry_inv_def f)
qed

lemma impl_returns_episode:
  assumes "impl_returns s q r = Some s'" "registered s p k"
  shows "registered s' p k \<and> launches s' k = launches s k"
proof -
  from assms(1) have q: "q < length (sys_impls s)" "snd (sys_impls s ! q) = Pending"
    and i: "sys_impls s' = (sys_impls s)[q := (fst (sys_impls s ! q), Settled r)]"
    by (auto simp: impl_returns_def Let_def split: if_splits)
  have "map fst (sys_impls s') = map fst (sys_impls s)"
    unfolding i using q(1) by (auto simp: list_eq_iff_nth_eq nth_list_update)
  then have "launches s' k = launches s k"
    by (simp add: launches_map_fst)
  moreover have "registered s' p k" using assms(2) q by (auto simp: registered_def i nth_list_update)
  ultimately show ?thesis by simp
qed

lemma run_finally_inv:
  assumes "run_finally s p = Some s'" "registry_inv s"
  shows "registry_inv s'"
proof -
  from assms(1) obtain r where p: "p < length (sys_impls s)" "snd (sys_impls s ! p) = Settled r"
    and i: "sys_impls s' = (sys_impls s)[p := (fst (sys_impls s ! p), Finalized r)]"
    and f: "sys_inFlight s' = Map_delete (fst (sys_impls s ! p)) (sys_inFlight s)"
    by (auto simp: run_finally_def Let_def split: if_splits pstate.splits)
  let ?kp = "fst (sys_impls s ! p)"
  have old: "\<And>k q. Map_get (sys_inFlight s) k = Some q \<longleftrightarrow> registered s q k"
    using assms(2) by (simp add: registry_inv_def)
  have rp: "registered s p ?kp" using p by (simp add: registered_def)
  show ?thesis
    unfolding registry_inv_def
  proof (intro allI)
    fix k q
    show "Map_get (sys_inFlight s') k = Some q \<longleftrightarrow> registered s' q k"
    proof (cases "q = p")
      case True
      have "\<not> registered s' p k" using p by (simp add: registered_def i)
      moreover have "Map_get (sys_inFlight s') k \<noteq> Some p"
      proof (cases "k = ?kp")
        case True then show ?thesis by (simp add: f Map_get_delete)
      next
        case False
        then have "\<not> registered s p k" by (auto simp: registered_def)
        then show ?thesis using old[of k p] False by (simp add: f Map_get_delete)
      qed
      ultimately show ?thesis using True by simp
    next
      case False
      have e: "registered s' q k = registered s q k"
        using False by (auto simp: registered_def i nth_list_update)
      show ?thesis
      proof (cases "k = ?kp")
        case True
        have "Map_get (sys_inFlight s) ?kp = Some p" using old[of ?kp p] rp by simp
        then have "\<not> registered s q k" using old[of k q] True False by auto
        then have "\<not> registered s' q k" using e by simp
        moreover have "Map_get (sys_inFlight s') k = None" using True by (simp add: f Map_get_delete)
        ultimately show ?thesis by simp
      next
        case False
        then show ?thesis using old[of k q] by (simp add: e f Map_get_delete)
      qed
    qed
  qed
qed

lemma run_finally_episode:
  assumes "run_finally s q = Some s'" "registered s p k" "q \<noteq> p"
  shows "registered s' p k \<and> launches s' k = launches s k"
proof -
  from assms(1) obtain r where q: "q < length (sys_impls s)"
    and i: "sys_impls s' = (sys_impls s)[q := (fst (sys_impls s ! q), Finalized r)]"
    by (auto simp: run_finally_def Let_def split: if_splits pstate.splits)
  have "map fst (sys_impls s') = map fst (sys_impls s)"
    unfolding i using q(1) by (auto simp: list_eq_iff_nth_eq nth_list_update)
  then have "launches s' k = launches s k"
    by (simp add: launches_map_fst)
  moreover have "registered s' p k" using assms(2,3) by (auto simp: registered_def i nth_list_update)
  ultimately show ?thesis by simp
qed

lemma step_inv:
  assumes "step s ev = Some s'" "registry_inv s"
  shows "registry_inv s'"
proof (cases "(\<forall>p r. ev \<noteq> ImplReturns p r) \<and> (\<forall>p. ev \<noteq> Finally p)")
  case True
  then have "launch\<^sup>*\<^sup>* (reg s) (reg s')" using step_launches[OF assms(1)] by blast
  from launches_inv_star[OF this refl refl assms(2)] show ?thesis .
next
  case False
  then show ?thesis using assms impl_returns_inv run_finally_inv by (cases ev) auto
qed

lemma step_episode:
  assumes "step s ev = Some s'" "registry_inv s" "registered s p k" "ev \<noteq> Finally p"
  shows "registered s' p k \<and> launches s' k = launches s k"
proof (cases "(\<forall>p r. ev \<noteq> ImplReturns p r) \<and> (\<forall>p. ev \<noteq> Finally p)")
  case True
  then have "launch\<^sup>*\<^sup>* (reg s) (reg s')" using step_launches[OF assms(1)] by blast
  from launches_episode_star[OF this refl refl assms(2,3)] show ?thesis .
next
  case False
  then show ?thesis
    using assms impl_returns_episode[of s _ _ s' p k] run_finally_episode[of s _ s' p k]
    by (cases ev) auto
qed

lemma run_inv: "run s evs = Some s' \<Longrightarrow> registry_inv s \<Longrightarrow> registry_inv s'"
proof (induction evs arbitrary: s)
  case Nil
  then show ?case by simp
next
  case (Cons ev evs)
  then obtain s1 where s1: "step s ev = Some s1" "run s1 evs = Some s'"
    by (auto split: option.splits)
  from Cons.IH[OF s1(2) step_inv[OF s1(1) Cons.prems(2)]] show ?case .
qed

lemma run_episode:
  "run s evs = Some s' \<Longrightarrow> registry_inv s \<Longrightarrow> registered s p k \<Longrightarrow> Finally p \<notin> set evs \<Longrightarrow>
   registered s' p k \<and> launches s' k = launches s k"
proof (induction evs arbitrary: s)
  case Nil
  then show ?case by simp
next
  case (Cons ev evs)
  then obtain s1 where s1: "step s ev = Some s1" "run s1 evs = Some s'"
    by (auto split: option.splits)
  have ne: "ev \<noteq> Finally p" and rest: "Finally p \<notin> set evs" using Cons.prems(4) by auto
  note e1 = step_episode[OF s1(1) Cons.prems(2,3) ne]
  from Cons.IH[OF s1(2) step_inv[OF s1(1) Cons.prems(2)] e1[THEN conjunct1] rest] e1
  show ?case by simp
qed

lemma registry_inv_sys0: "registry_inv sys0"
  by (simp add: registry_inv_def registered_def sys0_def Map_get_def)

lemma filter_at_most_one:
  assumes "\<And>i j. i < length xs \<Longrightarrow> j < length xs \<Longrightarrow> P (xs ! i) \<Longrightarrow> P (xs ! j) \<Longrightarrow> i = j"
  shows "length (filter P xs) \<le> 1"
  using assms
proof (induction xs)
  case Nil
  then show ?case by simp
next
  case (Cons x xs)
  have ih: "length (filter P xs) \<le> 1"
  proof (rule Cons.IH)
    fix i j assume "i < length xs" "j < length xs" "P (xs ! i)" "P (xs ! j)"
    then have "Suc i = Suc j" by (intro Cons.prems) simp_all
    then show "i = j" by simp
  qed
  show ?case
  proof (cases "P x")
    case False
    then show ?thesis using ih by simp
  next
    case True
    have "\<not> P y" if "y \<in> set xs" for y
    proof
      assume "P y"
      from that obtain i where "i < length xs" "xs ! i = y" by (auto simp: in_set_conv_nth)
      then have "Suc i = 0" using True \<open>P y\<close> by (intro Cons.prems) simp_all
      then show False by simp
    qed
    then have "filter P xs = []" by (simp add: filter_empty_conv)
    then show ?thesis using True by simp
  qed
qed

lemma outstanding_le_1: "registry_inv s \<Longrightarrow> outstanding s k \<le> 1"
  unfolding outstanding_def
proof (rule filter_at_most_one)
  fix i j
  assume inv: "registry_inv s" and "i < length (sys_impls s)" "j < length (sys_impls s)"
    and "fst (sys_impls s ! i) = k \<and> snd (sys_impls s ! i) = Pending"
    and "fst (sys_impls s ! j) = k \<and> snd (sys_impls s ! j) = Pending"
  then have "registered s i k" "registered s j k" by (simp_all add: registered_def)
  then have "Map_get (sys_inFlight s) k = Some i" "Map_get (sys_inFlight s) k = Some j"
    using inv by (simp_all add: registry_inv_def)
  then show "i = j" by simp
qed

lemma call_joined:
  assumes "\<not> cache_hit s k" "Map_get (sys_inFlight s) k = Some p"
  shows "fst (call_downloadChunk s k) = Joined p"
    and "sys_impls (snd (call_downloadChunk s k)) = sys_impls s"
  using assms
  by (auto simp: call_downloadChunk_def cache_hit_def ChunkCache_get_def Let_def
           split: option.splits)

lemma call_started:
  assumes "\<not> cache_hit s k" "Map_get (sys_inFlight s) k = None"
  shows "\<exists>s1. call_downloadChunk s k = (Started (length (sys_impls s)), s1)
            \<and> sys_impls s1 = sys_impls s @ [(k, Pending)]"
  using assms
  by (auto simp: call_downloadChunk_def cache_hit_def ChunkCache_get_def Let_def
           split: option.splits)

text \<open>
  Claim C4. In every state the tasks can reach, whatever the interleaving: at most one
  download of a key is outstanding; a call that misses the cache and finds the key in the
  registry launches nothing and gets the promise found there; and a call that misses both
  launches one download, after which, as long as the launching call has not run its
  \<open>finally\<close> block, no event launches another download for the key, however many calls
  are made on it.
\<close>

theorem at_most_one_fetch:
  assumes "run sys0 evs = Some s"
  shows "outstanding s k \<le> 1
     \<and> (\<forall>p. \<not> cache_hit s k \<and> Map_get (sys_inFlight s) k = Some p \<longrightarrow>
           fst (call_downloadChunk s k) = Joined p
           \<and> sys_impls (snd (call_downloadChunk s k)) = sys_impls s)
     \<and> (\<not> cache_hit s k \<and> Map_get (sys_inFlight s) k = None \<longrightarrow>
           (\<exists>s1. call_downloadChunk s k = (Started (length (sys_impls s)), s1)
                \<and> launches s1 k = launches s k + 1
                \<and> (\<forall>evs' s2. run s1 evs' = Some s2 \<and> Finally (length (sys_impls s)) \<notin> set evs' \<longrightarrow>
                      launches s2 k = launches s k + 1 \<and> outstanding s2 k \<le> 1)))"
proof -
  have inv: "registry_inv s" by (rule run_inv[OF assms registry_inv_sys0])
  have a: "outstanding s k \<le> 1" by (rule outstanding_le_1[OF inv])
  have b: "\<forall>p. \<not> cache_hit s k \<and> Map_get (sys_inFlight s) k = Some p \<longrightarrow>
           fst (call_downloadChunk s k) = Joined p
           \<and> sys_impls (snd (call_downloadChunk s k)) = sys_impls s"
    using call_joined by blast
  have c: "\<exists>s1. call_downloadChunk s k = (Started (length (sys_impls s)), s1)
                \<and> launches s1 k = launches s k + 1
                \<and> (\<forall>evs' s2. run s1 evs' = Some s2 \<and> Finally (length (sys_impls s)) \<notin> set evs' \<longrightarrow>
                      launches s2 k = launches s k + 1 \<and> outstanding s2 k \<le> 1)"
    if m: "\<not> cache_hit s k" "Map_get (sys_inFlight s) k = None"
  proof -
    from call_started[OF m] obtain s1 where
      s1: "call_downloadChunk s k = (Started (length (sys_impls s)), s1)"
      and i1: "sys_impls s1 = sys_impls s @ [(k, Pending)]" by blast
    have l1: "launches s1 k = launches s k + 1" by (simp add: launches_def i1)
    have "launch (reg s) (reg s1)" using call_launch[of s k] s1 by simp
    then have inv1: "registry_inv s1" using inv by (rule launch_inv)
    have r1: "registered s1 (length (sys_impls s)) k" by (simp add: registered_def i1)
    have "launches s2 k = launches s k + 1 \<and> outstanding s2 k \<le> 1"
      if "run s1 evs' = Some s2" "Finally (length (sys_impls s)) \<notin> set evs'" for evs' s2
      using run_episode[OF that(1) inv1 r1 that(2)] l1
            outstanding_le_1[OF run_inv[OF that(1) inv1]] by simp
    then show ?thesis using s1 l1 by blast
  qed
  show ?thesis using a b c by blast
qed

lemma demo_run: "run sys0 [DownloadChunk ''v:0''] = Some demo_sys"
  by (simp add: call_downloadChunk_def sys0_def demo_sys_def chunkCache_def ChunkCache_new_def
        ChunkCache_get_def Map_get_def Map_set_def Map_has_def)

theorem at_most_one_fetch_witness:
  "run sys0 [DownloadChunk ''v:0''] = Some demo_sys
   \<and> outstanding demo_sys ''v:0'' \<le> 1
   \<and> \<not> cache_hit demo_sys ''v:0''
   \<and> Map_get (sys_inFlight demo_sys) ''v:0'' = Some 0
   \<and> fst (call_downloadChunk demo_sys ''v:0'') = Joined 0
   \<and> sys_impls (snd (call_downloadChunk demo_sys ''v:0'')) = sys_impls demo_sys
   \<and> Map_get (sys_inFlight demo_sys) ''v:1'' = None
   \<and> \<not> cache_hit demo_sys ''v:1''
   \<and> (\<exists>s1. call_downloadChunk demo_sys ''v:1'' = (Started 1, s1)
          \<and> (\<exists>s2. run s1 [DownloadChunk ''v:1'', ImplReturns 1 None, DownloadChunk ''v:1''] = Some s2
                  \<and> launches s2 ''v:1'' = 1))"
proof -
  have h: "\<not> cache_hit demo_sys ''v:0''" "\<not> cache_hit demo_sys ''v:1''"
    by (simp_all add: cache_hit_def demo_sys_def sys0_def chunkCache_def ChunkCache_new_def Map_get_def)
  have g: "Map_get (sys_inFlight demo_sys) ''v:0'' = Some 0"
          "Map_get (sys_inFlight demo_sys) ''v:1'' = None"
    by (simp_all add: demo_sys_def Map_get_def)
  have l: "length (sys_impls demo_sys) = 1" "launches demo_sys ''v:1'' = 0"
    by (simp_all add: demo_sys_def launches_def)
  note t0 = at_most_one_fetch[OF demo_run, of "''v:0''"]
  note t1 = at_most_one_fetch[OF demo_run, of "''v:1''"]
  from t1 h(2) g(2) obtain s1 where
    s1: "call_downloadChunk demo_sys ''v:1'' = (Started (length (sys_impls demo_sys)), s1)"
    and e: "\<forall>evs' s2. run s1 evs' = Some s2 \<and> Finally (length (sys_impls demo_sys)) \<notin> set evs' \<longrightarrow>
                      launches s2 ''v:1'' = launches demo_sys ''v:1'' + 1 \<and> outstanding s2 ''v:1'' \<le> 1"
    by blast
  have s1v: "s1 = demo_sys\<lparr> sys_impls := [(''v:0'', Pending), (''v:1'', Pending)],
                           sys_inFlight := [(''v:0'', 0), (''v:1'', 1)] \<rparr>"
    using s1 by (simp add: call_downloadChunk_def sys0_def demo_sys_def chunkCache_def ChunkCache_new_def
        ChunkCache_get_def Map_get_def Map_set_def Map_has_def)
  have "\<exists>s2. run s1 [DownloadChunk ''v:1'', ImplReturns 1 None, DownloadChunk ''v:1''] = Some s2"
    unfolding s1v
    by (simp add: call_downloadChunk_def sys0_def demo_sys_def chunkCache_def ChunkCache_new_def
        ChunkCache_get_def Map_get_def Map_set_def Map_has_def impl_returns_def)
  then obtain s2 where r2: "run s1 [DownloadChunk ''v:1'', ImplReturns 1 None, DownloadChunk ''v:1''] = Some s2"
    by blast
  have nf: "Finally (length (sys_impls demo_sys))
              \<notin> set [DownloadChunk ''v:1'', ImplReturns 1 None, DownloadChunk ''v:1'']" by simp
  from e[rule_format, OF conjI[OF r2 nf]] l have l2: "launches s2 ''v:1'' = 1" by simp
  have "\<exists>s1. call_downloadChunk demo_sys ''v:1'' = (Started 1, s1)
          \<and> (\<exists>s2. run s1 [DownloadChunk ''v:1'', ImplReturns 1 None, DownloadChunk ''v:1''] = Some s2
                  \<and> launches s2 ''v:1'' = 1)"
    using s1 r2 l2 l(1) by auto
  then show ?thesis using t0 h g demo_run by blast
qed

lemma getNextChunk_idle:
  "sd_totalChunks d \<le> cursor d \<Longrightarrow> getNextChunk c f d = (None, d)"
  by (simp add: getNextChunk_def getNextChunk_loop.simps)

lemma spawn_worker_idle:
  assumes "sys_downloaders s = [d]" "running d" "sd_totalChunks d \<le> cursor d"
  shows "spawn_worker 0 s =
           s\<lparr> sys_workers := sys_workers s @ [\<lparr> wk_downloader = 0, wk_state = Sleeping \<rparr>],
              sys_downloaders := [d\<lparr> workerPromises := workerPromises d @ [length (sys_workers s)] \<rparr>] \<rparr>"
  using assms
  by (simp add: spawn_worker_def worker_loop_head_def Let_def getNextChunk_idle set_worker_def)

lemma spawn_workers_idle:
  assumes "sys_downloaders s = [d]" "running d" "sd_totalChunks d \<le> cursor d"
  shows "(spawn_worker 0 ^^ n) s =
           s\<lparr> sys_workers := sys_workers s @ replicate n \<lparr> wk_downloader = 0, wk_state = Sleeping \<rparr>,
              sys_downloaders :=
                [d\<lparr> workerPromises :=
                      workerPromises d @ [length (sys_workers s) ..< length (sys_workers s) + n] \<rparr>] \<rparr>"
proof (induction n)
  case 0
  then show ?case using assms(1) by simp
next
  case (Suc n)
  let ?sn = "s\<lparr> sys_workers := sys_workers s @ replicate n \<lparr> wk_downloader = 0, wk_state = Sleeping \<rparr>,
              sys_downloaders :=
                [d\<lparr> workerPromises :=
                      workerPromises d @ [length (sys_workers s) ..< length (sys_workers s) + n] \<rparr>] \<rparr>"
  let ?dn = "d\<lparr> workerPromises :=
                      workerPromises d @ [length (sys_workers s) ..< length (sys_workers s) + n] \<rparr>"
  have "spawn_worker 0 ?sn =
          ?sn\<lparr> sys_workers := sys_workers ?sn @ [\<lparr> wk_downloader = 0, wk_state = Sleeping \<rparr>],
               sys_downloaders := [?dn\<lparr> workerPromises := workerPromises ?dn @ [length (sys_workers ?sn)] \<rparr>] \<rparr>"
    by (rule spawn_worker_idle) (use assms in simp_all)
  then show ?case
    by (simp add: Suc.IH replicate_append_same)
qed

lemma demo_start: "register_stream sys0 ''v'' 5242880 ''video/mp4'' = demo_started"
proof -
  let ?d = "\<lparr> sd_videoId = ''v'', sd_fileSize = 5242880, sd_totalChunks = 5, playbackChunk = 0,
              cursor = 50, seekGeneration = 0, running = True, workerPromises = [] \<rparr>"
  let ?s1 = "sys0\<lparr> sys_downloaders := [?d] \<rparr>"
  have c: "ceil_div 5242880 CHUNK_SIZE = 5" by (simp add: ceil_div_def CHUNK_SIZE_def)
  have w: "sys_workers sys0 = []" by (simp add: sys0_def)
  have "(spawn_worker 0 ^^ 9) ?s1 =
           ?s1\<lparr> sys_workers := sys_workers ?s1 @ replicate 9 \<lparr> wk_downloader = 0, wk_state = Sleeping \<rparr>,
              sys_downloaders :=
                [?d\<lparr> workerPromises :=
                      workerPromises ?d @ [length (sys_workers ?s1) ..< length (sys_workers ?s1) + 9] \<rparr>] \<rparr>"
    by (rule spawn_workers_idle) simp_all
  then show ?thesis
    by (simp add: register_stream_def StreamDownloader_start_def StreamDownloader_new_def Let_def c w
          PREFETCH_CHUNKS_def PARALLEL_WORKERS_def CLIENT_POOL_SIZE_def WORKERS_PER_CONN_def
          demo_started_def Map_set_def Map_has_def sys0_def)
qed

text \<open>
  The claim as stated has the workers terminated when \<open>stopStream\<close> returns. Here the
  nine workers of a stream that is started and stopped at once are all still in their
  sleep. And the purge does not last: a download launched before the stop returns after
  it and puts its chunk in the cache.
\<close>

theorem stop_leaves_workers_counterexample:
  "map_option worker_states demo_stop_run = Some (replicate 9 Sleeping)
   \<and> map_option cached_keys demo_stop_run = Some []
   \<and> map_option cached_keys demo_late_run = Some [''v:0'']"
proof -
  have a: "demo_stop_run = Some (stopStream demo_started ''v'')"
    by (simp add: demo_stop_run_def demo_start)
  have b: "demo_late_run =
             impl_returns (stopStream (snd (call_downloadChunk demo_started ''v:0'')) ''v'') 0 (Some [1, 2, 3])"
    by (simp add: demo_late_run_def demo_start split: option.splits)
  have ws: "worker_states (stopStream demo_started ''v'') = replicate 9 Sleeping"
    by (simp add: worker_states_def stopStream_def stop_downloader_def demo_started_def Let_def
          Map_get_def sys0_def)
  have ck: "cached_keys (stopStream demo_started ''v'') = []"
    by (simp add: cached_keys_def stopStream_def stop_downloader_def demo_started_def Let_def
          Map_get_def sys0_def chunkCache_def ChunkCache_new_def ChunkCache_deletePrefix_def Map_keys_def)
  have cl: "call_downloadChunk demo_started ''v:0'' =
              (Started 0, demo_started\<lparr> sys_impls := [(''v:0'', Pending)], sys_inFlight := [(''v:0'', 0)] \<rparr>)"
    by (simp add: call_downloadChunk_def demo_started_def sys0_def chunkCache_def ChunkCache_new_def
          ChunkCache_get_def Map_get_def Map_set_def Map_has_def)
  have lt: "map_option cached_keys demo_late_run = Some [''v:0'']"
    unfolding b cl
    by (simp add: impl_returns_def cached_keys_def stopStream_def stop_downloader_def demo_started_def
          Let_def Map_get_def sys0_def chunkCache_def ChunkCache_new_def ChunkCache_deletePrefix_def
          Map_keys_def ChunkCache_set_def reclaim_def evict.simps Map_size_def Map_set_def Map_has_def
          CACHE_MAX_BYTES_def)
  show ?thesis using ws ck lt by (simp add: a)
qed

lemma cache_call: "sys_cache (snd (call_downloadChunk s k)) = snd (ChunkCache_get (sys_cache s) k)"
  by (auto simp: call_downloadChunk_def Let_def split: prod.splits option.splits if_splits)

lemma call_cache_inv:
  "cache_inv (sys_cache s) \<Longrightarrow> cache_inv (sys_cache (snd (call_downloadChunk s k)))"
  by (simp add: cache_call get_inv)

lemma cache_set_worker [simp]: "sys_cache (set_worker s w st) = sys_cache s"
  by (simp add: set_worker_def)

lemma worker_loop_head_cache_inv:
  assumes "cache_inv (sys_cache s)"
  shows "cache_inv (sys_cache (worker_loop_head s w))"
proof -
  let ?d = "sys_downloaders s ! wk_downloader (sys_workers s ! w)"
  obtain idx d1 where g: "getNextChunk (sys_cache s) (sys_inFlight s) ?d = (idx, d1)"
    by (cases "getNextChunk (sys_cache s) (sys_inFlight s) ?d")
  let ?s1 = "s\<lparr> sys_downloaders := (sys_downloaders s)[wk_downloader (sys_workers s ! w) := d1] \<rparr>"
  have "cache_inv (sys_cache (snd (call_downloadChunk ?s1 k)))" for k
    by (rule call_cache_inv) (use assms in simp)
  then show ?thesis using assms g
    by (auto simp: worker_loop_head_def Let_def split: option.splits prod.splits) (metis snd_conv)
qed

lemma worker_wakes_cache_inv:
  "worker_wakes s w = Some s' \<Longrightarrow> cache_inv (sys_cache s) \<Longrightarrow> cache_inv (sys_cache s')"
  using worker_loop_head_cache_inv[of s w]
  by (auto simp: worker_wakes_def split: if_splits worker_state.splits)

lemma spawn_worker_cache_inv:
  assumes "cache_inv (sys_cache s)"
  shows "cache_inv (sys_cache (spawn_worker dref s))"
proof -
  let ?s1 = "s\<lparr> sys_workers := sys_workers s @ [\<lparr> wk_downloader = dref, wk_state = Sleeping \<rparr>] \<rparr>"
  have "cache_inv (sys_cache (worker_loop_head ?s1 (length (sys_workers s))))"
    by (rule worker_loop_head_cache_inv) (use assms in simp)
  then show ?thesis by (simp add: spawn_worker_def Let_def)
qed

lemma spawn_workers_cache_inv:
  "cache_inv (sys_cache s) \<Longrightarrow> cache_inv (sys_cache ((spawn_worker dref ^^ n) s))"
  by (induction n) (simp_all add: spawn_worker_cache_inv)

lemma register_stream_cache_inv:
  assumes "cache_inv (sys_cache s)"
  shows "cache_inv (sys_cache (register_stream s v sz mime))"
proof -
  have "cache_inv (sys_cache ((spawn_worker dref ^^ n) s1))" if "sys_cache s1 = sys_cache s" for s1 dref n
    by (rule spawn_workers_cache_inv) (use assms that in simp)
  then show ?thesis
    by (simp add: register_stream_def StreamDownloader_start_def Let_def)
qed

lemma cache_stop_downloader [simp]: "sys_cache (stop_downloader s info) = sys_cache s"
  by (simp add: stop_downloader_def split: option.splits)

lemma cache_stopStream:
  "sys_cache (stopStream s v) = ChunkCache_deletePrefix (sys_cache s) (v @ '':'')"
  by (simp add: stopStream_def Let_def split: option.splits)

lemma cache_foldl_stop [simp]: "sys_cache (foldl stop_downloader s infos) = sys_cache s"
  by (induction infos arbitrary: s) simp_all

lemma step_cache_inv:
  assumes "step s ev = Some s'" "cache_inv (sys_cache s)"
  shows "cache_inv (sys_cache s')"
proof (cases ev)
  case (DownloadChunk k)
  then show ?thesis using assms call_cache_inv[of s k] by auto
next
  case (ImplReturns p r)
  then show ?thesis using assms
    by (auto simp: impl_returns_def Let_def set_inv split: if_splits option.splits)
next
  case (Finally p)
  then show ?thesis using assms
    by (auto simp: run_finally_def Let_def split: if_splits pstate.splits)
next
  case (WorkerWakes w)
  then show ?thesis using assms worker_wakes_cache_inv[of s w s'] by auto
next
  case (StartStream v sz mime)
  then show ?thesis using assms register_stream_cache_inv[of s v sz mime] by auto
next
  case (StopStream v)
  then show ?thesis using assms by (auto simp: cache_stopStream deletePrefix_inv)
next
  case Destroy
  then show ?thesis using assms
    by (auto simp: destroy_def Let_def ChunkCache_clear_def cache_inv_def)
qed

lemma run_cache_inv: "run s evs = Some s' \<Longrightarrow> cache_inv (sys_cache s) \<Longrightarrow> cache_inv (sys_cache s')"
proof (induction evs arbitrary: s)
  case Nil
  then show ?case by simp
next
  case (Cons ev evs)
  then obtain s1 where s1: "step s ev = Some s1" "run s1 evs = Some s'"
    by (auto split: option.splits)
  from Cons.IH[OF s1(2) step_cache_inv[OF s1(1) Cons.prems(2)]] show ?case .
qed

lemma cache_inv_sys0: "cache_inv (sys_cache sys0)"
  by (simp add: sys0_def chunkCache_def ChunkCache_new_def cache_inv_def)

lemma startsWith_cacheKey: "startsWith (cacheKey_of v i) (v @ '':'')"
  by (simp add: startsWith_def cacheKey_of_def)

text \<open>
  Claim C5, as the code has it. In every reachable state, when \<open>stopStream (v)\<close> returns
  the cache has no key that starts with \<open>v:\<close>, so no chunk of the stream; the stream is
  not registered; and the flag of its downloader is down. The worker tasks are left as they
  are: each leaves its loop when it next comes to the head of the loop.
\<close>

theorem stop_stream_purges:
  assumes "run sys0 evs = Some s"
  shows "(\<forall>key. startsWith key (v @ '':'') \<longrightarrow> \<not> ChunkCache_has (sys_cache (stopStream s v)) key)
     \<and> (\<forall>i. \<not> ChunkCache_has (sys_cache (stopStream s v)) (cacheKey_of v i))
     \<and> Map_get (sys_streams (stopStream s v)) v = None
     \<and> sys_workers (stopStream s v) = sys_workers s
     \<and> (\<forall>info dref. Map_get (sys_streams s) v = Some info \<and> downloader info = Some dref
            \<and> dref < length (sys_downloaders s) \<longrightarrow>
          \<not> running (sys_downloaders (stopStream s v) ! dref)
          \<and> (\<forall>w < length (sys_workers s). wk_downloader (sys_workers s ! w) = dref \<longrightarrow>
                wk_state (sys_workers (worker_loop_head (stopStream s v) w) ! w) = Exited))"
proof -
  have inv: "cache_inv (sys_cache s)" by (rule run_cache_inv[OF assms cache_inv_sys0])
  have m: "map_kv (sys_cache (stopStream s v))
             = filter (\<lambda>p. \<not> startsWith (fst p) (v @ '':'')) (map_kv (sys_cache s))"
    by (simp add: cache_stopStream deletePrefix_map[OF inv])
  have a: "\<forall>key. startsWith key (v @ '':'') \<longrightarrow> \<not> ChunkCache_has (sys_cache (stopStream s v)) key"
    by (auto simp: ChunkCache_has_def Map_has_def m)
  then have b: "\<forall>i. \<not> ChunkCache_has (sys_cache (stopStream s v)) (cacheKey_of v i)"
    using startsWith_cacheKey by blast
  have c: "Map_get (sys_streams (stopStream s v)) v = None"
    by (simp add: stopStream_def Let_def Map_get_delete split: option.splits)
  have w: "sys_workers (stopStream s v) = sys_workers s"
    by (simp add: stopStream_def stop_downloader_def Let_def split: option.splits)
  have d: "\<not> running (sys_downloaders (stopStream s v) ! dref)
          \<and> (\<forall>w < length (sys_workers s). wk_downloader (sys_workers s ! w) = dref \<longrightarrow>
                wk_state (sys_workers (worker_loop_head (stopStream s v) w) ! w) = Exited)"
    if "Map_get (sys_streams s) v = Some info" "downloader info = Some dref"
       "dref < length (sys_downloaders s)" for info dref
  proof -
    have r: "\<not> running (sys_downloaders (stopStream s v) ! dref)"
      using that by (simp add: stopStream_def stop_downloader_def Let_def StreamDownloader_stop_def)
    have "wk_state (sys_workers (worker_loop_head (stopStream s v) w) ! w) = Exited"
      if wd: "wk_downloader (sys_workers s ! w) = dref" and wl: "w < length (sys_workers s)" for w
    proof -
      have "\<not> running (sys_downloaders (stopStream s v) ! wk_downloader (sys_workers (stopStream s v) ! w))"
        using r wd w by simp
      then have "worker_loop_head (stopStream s v) w = set_worker (stopStream s v) w Exited"
        by (simp add: worker_loop_head_def Let_def)
      moreover have "w < length (sys_workers (stopStream s v))" using wl w by simp
      ultimately show ?thesis by (simp add: set_worker_def)
    qed
    then show ?thesis using r by blast
  qed
  show ?thesis using a b c d w by blast
qed

lemma demo_cached_run:
  "run sys0 [StartStream ''v'' 5242880 ''video/mp4'', DownloadChunk ''v:0'',
             ImplReturns 0 (Some [1, 2, 3])] = Some demo_cached"
proof -
  have cl: "call_downloadChunk demo_started ''v:0'' =
              (Started 0, demo_started\<lparr> sys_impls := [(''v:0'', Pending)], sys_inFlight := [(''v:0'', 0)] \<rparr>)"
    by (simp add: call_downloadChunk_def demo_started_def sys0_def chunkCache_def ChunkCache_new_def
          ChunkCache_get_def Map_get_def Map_set_def Map_has_def)
  show ?thesis
    by (simp add: demo_start cl)
       (simp add: impl_returns_def Let_def demo_cached_def demo_started_def sys0_def chunkCache_def
          ChunkCache_new_def ChunkCache_set_def reclaim_def evict.simps Map_get_def Map_size_def
          Map_set_def Map_has_def CACHE_MAX_BYTES_def)
qed

theorem stop_stream_purges_witness:
  "run sys0 [StartStream ''v'' 5242880 ''video/mp4'', DownloadChunk ''v:0'',
             ImplReturns 0 (Some [1, 2, 3])] = Some demo_cached
   \<and> ChunkCache_has (sys_cache demo_cached) ''v:0''
   \<and> startsWith ''v:0'' (''v'' @ '':'')
   \<and> \<not> ChunkCache_has (sys_cache (stopStream demo_cached ''v'')) ''v:0''
   \<and> Map_get (sys_streams demo_cached) ''v''
        = Some \<lparr> fileSize = 5242880, mimeType = ''video/mp4'', downloader = Some 0 \<rparr>
   \<and> \<not> running (sys_downloaders (stopStream demo_cached ''v'') ! 0)
   \<and> wk_state (sys_workers (stopStream demo_cached ''v'') ! 0) = Sleeping
   \<and> wk_state (sys_workers (worker_loop_head (stopStream demo_cached ''v'') 0) ! 0) = Exited"
proof -
  note t = stop_stream_purges[OF demo_cached_run, of "''v''"]
  have h: "ChunkCache_has (sys_cache demo_cached) ''v:0''"
    by (simp add: demo_cached_def ChunkCache_has_def Map_has_def)
  have sw: "startsWith ''v:0'' (''v'' @ '':'')" by (simp add: startsWith_def)
  have g: "Map_get (sys_streams demo_cached) ''v''
        = Some \<lparr> fileSize = 5242880, mimeType = ''video/mp4'', downloader = Some 0 \<rparr>"
    by (simp add: demo_cached_def demo_started_def Map_get_def)
  have l: "0 < length (sys_downloaders demo_cached)" "0 < length (sys_workers demo_cached)"
    "wk_downloader (sys_workers demo_cached ! 0) = 0" "wk_state (sys_workers demo_cached ! 0) = Sleeping"
    by (simp_all add: demo_cached_def demo_started_def)
  from t sw have "\<not> ChunkCache_has (sys_cache (stopStream demo_cached ''v'')) ''v:0''" by blast
  moreover from t g l have "\<not> running (sys_downloaders (stopStream demo_cached ''v'') ! 0)"
    and "wk_state (sys_workers (worker_loop_head (stopStream demo_cached ''v'') 0) ! 0) = Exited"
    by auto
  moreover from t l have "wk_state (sys_workers (stopStream demo_cached ''v'') ! 0) = Sleeping" by simp
  ultimately show ?thesis using demo_cached_run h sw g by simp
qed

section \<open>The session pool: authentications in one process run\<close>

lemmas pool_eval = run_pool_def pool_step.simps ensureClientPool_def resume_def begin_auth_def
  begin_clones_def start_clones.simps settle_def loadSavedSession_def process_start_def
  createClientWithSession_def observe_def saveSession_def CLIENT_POOL_SIZE_def Let_def
  upt_conv_Cons List.map_filter_def exchanges_def successes_def demo_transport_def

text \<open>
  A call whose first exchange is answered by a rate limit waits and repeats the exchange:
  two exchanges, of which one ends in an authorization.
\<close>

lemma flood_retry_run:
  "tasks (run_pool flood_transport (process_start None) single_call) = [Finished (Returned ())]
   \<and> ps_log (pool (run_pool flood_transport (process_start None) single_call))
       = [AuthExchange 0 (Flood 2), Wait 7, AuthExchange 0 (Authorized ''k''), Persist ''k'',
          ConnectOnly 1 ''k'', ConnectOnly 2 ''k'']"
  by (simp add: pool_eval flood_transport_def single_call_def)

text \<open>
  Claim C3: at most one authentication exchange in a process run, exactly one when no
  credential is stored. The comment above \<open>createClientWithSession\<close> promises the same
  (\<open>only 1 call to auth.ImportBotAuthorization ever\<close>), but nothing in \<open>ensureClientPool\<close>
  keeps a second call from running while the first awaits. With no stored credential and
  every operation succeeding, a second call made while the first awaits its authentication
  finds the pool empty and no session file, and authenticates too: the run holds two
  exchanges, both ending in an authorization, both calls return, and the pool ends with
  five clients. The same two calls made one after the other give one exchange and a pool
  of three.
\<close>

theorem overlapping_calls_counterexample:
  "ps_saved (pool (process_start None)) = None
   \<and> tasks (run_pool demo_transport (process_start None) overlapping_calls)
       = [Finished (Returned ()), Finished (Returned ())]
   \<and> exchanges (ps_log (pool (run_pool demo_transport (process_start None) overlapping_calls))) = 2
   \<and> successes (ps_log (pool (run_pool demo_transport (process_start None) overlapping_calls))) = 2
   \<and> length (ps_clientPool (pool (run_pool demo_transport (process_start None) overlapping_calls))) = 5
   \<and> tasks (run_pool demo_transport (process_start None) consecutive_calls)
       = [Finished (Returned ()), Finished (Returned ())]
   \<and> exchanges (ps_log (pool (run_pool demo_transport (process_start None) consecutive_calls))) = 1
   \<and> length (ps_clientPool (pool (run_pool demo_transport (process_start None) consecutive_calls))) = 3"
  by (simp add: pool_eval overlapping_calls_def consecutive_calls_def)

end
